theory Spec2Isabelle
  imports Complex_Main "HOL-Library.Product_Lexorder"
begin

section \<open>Data model of main.cpp\<close>

text \<open>
  The simulator of main.cpp: the two scheduling engines \<^verbatim>\<open>round_robin\<close> and
  \<^verbatim>\<open>preemptive_priority\<close>, the metrics they print and the sample data set. Printing is
  modelled by returning what is printed; reading the input in \<^verbatim>\<open>main\<close> is left out.

  A C++ \<^verbatim>\<open>int\<close> is modelled as an \<^typ>\<open>int\<close> between \<open>-2\<^sup>3\<^sup>1\<close> and \<open>2\<^sup>3\<^sup>1 - 1\<close>, and
  every addition and subtraction the program does on \<^verbatim>\<open>int\<close>s is followed by \<open>wrap32\<close>,
  the reduction to that range modulo \<open>2\<^sup>3\<^sup>2\<close>: the clock and the timing fields wrap around
  when a run lasts longer than an \<^verbatim>\<open>int\<close> can count. (The C++ standard leaves signed overflow
  undefined; wrapping is what the compiled program does on the usual targets.) Indices into
  \<^verbatim>\<open>procs\<close> and the counter \<^verbatim>\<open>completed\<close> only count upwards from 0 to the number of
  processes, and \<^verbatim>\<open>context_switches\<close> to at most the number of intervals; they are
  modelled as \<^typ>\<open>nat\<close>.
\<close>

definition wrap32 :: "int \<Rightarrow> int" where
  "wrap32 x = (x + 2147483648) mod 4294967296 - 2147483648"

definition int32 :: "int \<Rightarrow> bool" where
  "int32 x \<longleftrightarrow> -2147483648 \<le> x \<and> x \<le> 2147483647"

record Process =
  pid :: int
  arrival :: int
  burst :: int
  priority :: int
  remaining :: int
  start_time :: int
  completion_time :: int
  waiting_time :: int
  turnaround_time :: int

text \<open>The constructor \<^verbatim>\<open>Process(int id, int a, int b, int p)\<close>.\<close>

definition new_Process :: "int \<Rightarrow> int \<Rightarrow> int \<Rightarrow> int \<Rightarrow> Process" where
  "new_Process i a b p =
     \<lparr>pid = i, arrival = a, burst = b, priority = p, remaining = b, start_time = -1,
      completion_time = 0, waiting_time = 0, turnaround_time = 0\<rparr>"

text \<open>\<^verbatim>\<open>struct GanttEntry { int pid; int start; int end; }\<close>; an idle interval has pid \<open>-1\<close>.\<close>

datatype GanttEntry = GanttEntry (g_pid: int) (g_start: int) (g_end: int)

subsection \<open>Metrics (print\_metrics)\<close>

text \<open>
  The values \<^verbatim>\<open>print_metrics\<close> prints are C++ doubles. Only the shape of a double division
  is modelled: a finite quotient is taken exactly (rounding is not modelled), and a division
  by zero gives what IEEE 754 gives, NaN for \<open>0/0\<close> and an infinity with the sign of the
  dividend otherwise (the divisors here are converted from \<^verbatim>\<open>int\<close>, so a zero divisor is
  \<open>+0.0\<close>).
\<close>

datatype dbl = Fin rat | PInf | NInf | NaN

definition ddiv :: "rat \<Rightarrow> rat \<Rightarrow> dbl" where
  "ddiv a b = (if b = 0 then (if a = 0 then NaN else if 0 < a then PInf else NInf)
               else Fin (a / b))"

record Metrics =
  m_total_time :: int
  avg_wt :: dbl
  avg_tat :: dbl
  cpu_util :: dbl
  throughput :: dbl
  context_switches :: nat

text \<open>
  \<^verbatim>\<open>int cpu_busy=0; for(auto &g: gantt) if(g.pid!=-1) cpu_busy += (g.end - g.start);\<close>
\<close>

definition cpu_busy :: "GanttEntry list \<Rightarrow> int" where
  "cpu_busy gantt =
     foldl (\<lambda>busy g. if g_pid g \<noteq> -1 then wrap32 (busy + wrap32 (g_end g - g_start g)) else busy)
       0 gantt"

text \<open>\<^verbatim>\<open>for(i=1;i<gantt.size();++i) if(gantt[i].pid != gantt[i-1].pid) context_switches++;\<close>\<close>

fun count_switches :: "GanttEntry list \<Rightarrow> nat" where
  "count_switches (a # b # gs) =
     (if g_pid b \<noteq> g_pid a then 1 else 0) + count_switches (b # gs)"
| "count_switches _ = 0"

definition print_metrics :: "Process list \<Rightarrow> GanttEntry list \<Rightarrow> int \<Rightarrow> Metrics" where
  "print_metrics procs gantt total_time =
     (let n = int (length procs);
          sum_wt = sum_list (map waiting_time procs);
          sum_tat = sum_list (map turnaround_time procs)
      in \<lparr>m_total_time = total_time,
          avg_wt = ddiv (of_int sum_wt) (of_int n),
          avg_tat = ddiv (of_int sum_tat) (of_int n),
          cpu_util = ddiv (100 * of_int (cpu_busy gantt)) (of_int total_time),
          throughput = ddiv (of_int n) (of_int total_time),
          context_switches = count_switches gantt\<rparr>)"

text \<open>
  What a run prints: the Gantt chart, the metrics and the process table. Both engines end with
  \<^verbatim>\<open>print_metrics(procs, gantt, gantt.empty() ? 0 : gantt.back().end)\<close>.
\<close>

record run_result =
  timeline :: "GanttEntry list"
  metrics :: Metrics
  table :: "Process list"

definition report :: "Process list \<Rightarrow> GanttEntry list \<Rightarrow> run_result" where
  "report procs gantt =
     \<lparr>timeline = gantt,
      metrics = print_metrics procs gantt (if gantt = [] then 0 else g_end (last gantt)),
      table = procs\<rparr>"

text \<open>The outcome of one pass through a loop body that may \<^verbatim>\<open>break\<close> or go on.\<close>

datatype 'a flow = Break | Continue 'a

section \<open>Round Robin\<close>

record rr_state =
  procs :: "Process list"
  q :: "nat list"
  in_queue :: "bool list"
  time :: int
  completed :: nat
  gantt :: "GanttEntry list"
  idx_next_arrival :: nat

text \<open>
  \<^verbatim>\<open>sort(procs.begin(), procs.end(), cmp)\<close> with \<^verbatim>\<open>cmp\<close> = arrival, then pid: the
  lexicographic order on the pairs (arrival, pid). (Elements that compare equal, which needs a
  duplicated pid, are left in their input order here; std::sort does not fix their order.)
\<close>

definition rr_sort :: "Process list \<Rightarrow> Process list" where
  "rr_sort ps = sort_key (\<lambda>p. (arrival p, pid p)) ps"

text \<open>\<^verbatim>\<open>for(int i=0;i<n && procs[i].arrival==0;i++){ q.push(i); in_queue[i]=true; }\<close>\<close>

function push_initial :: "nat \<Rightarrow> rr_state \<Rightarrow> rr_state" where
  "push_initial i s =
     (if i < length (procs s) \<and> arrival (procs s ! i) = 0
      then push_initial (Suc i) (s\<lparr>q := q s @ [i], in_queue := (in_queue s)[i := True]\<rparr>)
      else s)"
  by pat_completeness auto
termination
  by (relation "measure (\<lambda>(i, s). length (procs s) - i)") auto

text \<open>\<^verbatim>\<open>while(idx_next_arrival < n && procs[idx_next_arrival].arrival==0) idx_next_arrival++;\<close>\<close>

function skip_initial :: "rr_state \<Rightarrow> rr_state" where
  "skip_initial s =
     (if idx_next_arrival s < length (procs s) \<and> arrival (procs s ! idx_next_arrival s) = 0
      then skip_initial (s\<lparr>idx_next_arrival := Suc (idx_next_arrival s)\<rparr>)
      else s)"
  by pat_completeness auto
termination
  by (relation "measure (\<lambda>s. length (procs s) - idx_next_arrival s)") auto

text \<open>The admission loop with test \<^verbatim>\<open>procs[idx_next_arrival].arrival==time\<close>.\<close>

function admit_eq :: "rr_state \<Rightarrow> rr_state" where
  "admit_eq s =
     (if idx_next_arrival s < length (procs s) \<and> arrival (procs s ! idx_next_arrival s) = time s
      then admit_eq (s\<lparr>q := q s @ [idx_next_arrival s],
                       in_queue := (in_queue s)[idx_next_arrival s := True],
                       idx_next_arrival := Suc (idx_next_arrival s)\<rparr>)
      else s)"
  by pat_completeness auto
termination
  by (relation "measure (\<lambda>s. length (procs s) - idx_next_arrival s)") auto

text \<open>The admission loop with test \<^verbatim>\<open>procs[idx_next_arrival].arrival <= time\<close>.\<close>

function admit_le :: "rr_state \<Rightarrow> rr_state" where
  "admit_le s =
     (if idx_next_arrival s < length (procs s) \<and> arrival (procs s ! idx_next_arrival s) \<le> time s
      then admit_le (s\<lparr>q := q s @ [idx_next_arrival s],
                       in_queue := (in_queue s)[idx_next_arrival s := True],
                       idx_next_arrival := Suc (idx_next_arrival s)\<rparr>)
      else s)"
  by pat_completeness auto
termination
  by (relation "measure (\<lambda>s. length (procs s) - idx_next_arrival s)") auto

declare push_initial.simps [simp del] skip_initial.simps [simp del]
  admit_eq.simps [simp del] admit_le.simps [simp del]

text \<open>The state in which the \<^verbatim>\<open>while(completed < n)\<close> loop is entered.\<close>

definition rr_init :: "Process list \<Rightarrow> rr_state" where
  "rr_init procs0 =
     (let ps = rr_sort procs0;
          n = length ps;
          s0 = \<lparr>procs = ps, q = [], in_queue = replicate n False, time = 0, completed = 0,
                gantt = [], idx_next_arrival = 0\<rparr>;
          s1 = skip_initial (push_initial 0 s0)
      in if q s1 = [] \<and> idx_next_arrival s1 < n
         then let next_t = arrival (procs s1 ! idx_next_arrival s1)
              in admit_eq (s1\<lparr>gantt := gantt s1 @ [GanttEntry (-1) (time s1) next_t],
                              time := next_t\<rparr>)
         else s1)"

text \<open>One pass through the body of \<^verbatim>\<open>while(completed < n)\<close>.\<close>

definition rr_body :: "int \<Rightarrow> rr_state \<Rightarrow> rr_state flow" where
  "rr_body quantum s =
     (if q s = [] then
        (if idx_next_arrival s < length (procs s) then
           let next_t = arrival (procs s ! idx_next_arrival s);
               s1 = (if time s < next_t
                     then s\<lparr>gantt := gantt s @ [GanttEntry (-1) (time s) next_t], time := next_t\<rparr>
                     else s)
           in Continue (admit_eq s1)
         else Break)
      else
        let i = hd (q s);
            p0 = procs s ! i;
            p1 = (if start_time p0 = -1 then p0\<lparr>start_time := time s\<rparr> else p0);
            exec = min quantum (remaining p1);
            p2 = p1\<lparr>remaining := wrap32 (remaining p1 - exec)\<rparr>;
            s1 = admit_le (s\<lparr>q := tl (q s), in_queue := (in_queue s)[i := False],
                             procs := (procs s)[i := p2],
                             gantt := gantt s @
                               [GanttEntry (pid p1) (time s) (wrap32 (time s + exec))],
                             time := wrap32 (time s + exec)\<rparr>)
        in if 0 < remaining p2
           then Continue (s1\<lparr>q := q s1 @ [i], in_queue := (in_queue s1)[i := True]\<rparr>)
           else Continue
                  (s1\<lparr>procs := (procs s1)
                          [i := p2\<lparr>completion_time := time s1,
                                   turnaround_time := wrap32 (time s1 - arrival p2),
                                   waiting_time :=
                                     wrap32 (wrap32 (time s1 - arrival p2) - burst p2)\<rparr>],
                       completed := Suc (completed s1)\<rparr>))"

text \<open>The loop itself; \<open>None\<close> is a loop that never exits.\<close>

partial_function (option) rr_loop :: "int \<Rightarrow> rr_state \<Rightarrow> rr_state option" where
  "rr_loop quantum s =
     (if completed s < length (procs s)
      then (case rr_body quantum s of Break \<Rightarrow> Some s | Continue s' \<Rightarrow> rr_loop quantum s')
      else Some s)"

declare rr_loop.simps [code]

definition round_robin :: "Process list \<Rightarrow> int \<Rightarrow> run_result option" where
  "round_robin procs0 quantum =
     map_option (\<lambda>s. report (procs s) (gantt s)) (rr_loop quantum (rr_init procs0))"

section \<open>Preemptive priority scheduling\<close>

record pps_state =
  pprocs :: "Process list"
  pq :: "nat list"
  ptime :: int
  pcompleted :: nat
  pgantt :: "GanttEntry list"
  idx :: nat

text \<open>
  \<^verbatim>\<open>sort(procs.begin(), procs.end(), cmp)\<close> with \<^verbatim>\<open>cmp\<close> = arrival, then priority,
  then pid.
\<close>

definition pps_sort :: "Process list \<Rightarrow> Process list" where
  "pps_sort ps = sort_key (\<lambda>p. (arrival p, priority p, pid p)) ps"

text \<open>
  The comparator of the priority queue: \<^verbatim>\<open>cmp(a, b)\<close> holds when \<open>a\<close> is less urgent than
  \<open>b\<close>. The queue is modelled by the list of the indices it holds; \<^verbatim>\<open>top()\<close> is an element
  that \<^verbatim>\<open>cmp\<close> puts below no other, which is unique as soon as the pids in the queue differ
  (the heap layout of std::priority\_queue only matters between elements that compare equal,
  where the earliest pushed is taken here).
\<close>

definition cmp :: "Process list \<Rightarrow> nat \<Rightarrow> nat \<Rightarrow> bool" where
  "cmp ps a b =
     (if priority (ps ! a) \<noteq> priority (ps ! b) then priority (ps ! a) > priority (ps ! b)
      else if arrival (ps ! a) \<noteq> arrival (ps ! b) then arrival (ps ! a) > arrival (ps ! b)
      else pid (ps ! a) > pid (ps ! b))"

fun pq_top :: "Process list \<Rightarrow> nat list \<Rightarrow> nat" where
  "pq_top ps [] = 0"
| "pq_top ps (x # xs) = foldl (\<lambda>best y. if cmp ps best y then y else best) x xs"

text \<open>\<^verbatim>\<open>while(idx < n && procs[idx].arrival <= time){ pq.push(idx); idx++; }\<close>\<close>

function admit :: "pps_state \<Rightarrow> pps_state" where
  "admit s =
     (if idx s < length (pprocs s) \<and> arrival (pprocs s ! idx s) \<le> ptime s
      then admit (s\<lparr>pq := pq s @ [idx s], idx := Suc (idx s)\<rparr>)
      else s)"
  by pat_completeness auto
termination
  by (relation "measure (\<lambda>s. length (pprocs s) - idx s)") auto

declare admit.simps [simp del]

definition pps_init :: "Process list \<Rightarrow> pps_state" where
  "pps_init procs0 =
     (let ps = pps_sort procs0;
          s0 = \<lparr>pprocs = ps, pq = [], ptime = 0, pcompleted = 0, pgantt = [], idx = 0\<rparr>
      in if idx s0 < length ps \<and> arrival (ps ! idx s0) > ptime s0
         then s0\<lparr>pgantt := pgantt s0 @ [GanttEntry (-1) (ptime s0) (arrival (ps ! idx s0))],
                 ptime := arrival (ps ! idx s0)\<rparr>
         else s0)"

definition pps_body :: "pps_state \<Rightarrow> pps_state flow" where
  "pps_body s0 =
     (let s = admit s0 in
      if pq s = [] then
        (if idx s < length (pprocs s) then
           let next_t = arrival (pprocs s ! idx s)
           in Continue (if ptime s < next_t
                        then s\<lparr>pgantt := pgantt s @ [GanttEntry (-1) (ptime s) next_t],
                               ptime := next_t\<rparr>
                        else s)
         else Break)
      else
        let cur = pq_top (pprocs s) (pq s);
            p0 = pprocs s ! cur;
            p1 = (if start_time p0 = -1 then p0\<lparr>start_time := ptime s\<rparr> else p0);
            run_for = 1;
            p2 = p1\<lparr>remaining := wrap32 (remaining p1 - run_for)\<rparr>;
            s1 = admit (s\<lparr>pq := remove1 cur (pq s),
                          pprocs := (pprocs s)[cur := p2],
                          pgantt := pgantt s @
                            [GanttEntry (pid p1) (ptime s) (wrap32 (ptime s + run_for))],
                          ptime := wrap32 (ptime s + run_for)\<rparr>)
        in if 0 < remaining p2
           then Continue (s1\<lparr>pq := pq s1 @ [cur]\<rparr>)
           else Continue
                  (s1\<lparr>pprocs := (pprocs s1)
                          [cur := p2\<lparr>completion_time := ptime s1,
                                     turnaround_time := wrap32 (ptime s1 - arrival p2),
                                     waiting_time :=
                                       wrap32 (wrap32 (ptime s1 - arrival p2) - burst p2)\<rparr>],
                       pcompleted := Suc (pcompleted s1)\<rparr>))"

partial_function (option) pps_loop :: "pps_state \<Rightarrow> pps_state option" where
  "pps_loop s =
     (if pcompleted s < length (pprocs s)
      then (case pps_body s of Break \<Rightarrow> Some s | Continue s' \<Rightarrow> pps_loop s')
      else Some s)"

declare pps_loop.simps [code]

definition preemptive_priority :: "Process list \<Rightarrow> run_result option" where
  "preemptive_priority procs0 =
     map_option (\<lambda>s. report (pprocs s) (pgantt s)) (pps_loop (pps_init procs0))"

section \<open>The sample data set\<close>

definition load_sample :: "Process list" where
  "load_sample = [new_Process 1 0 5 2, new_Process 2 1 3 1, new_Process 3 2 8 4, new_Process 4 3 6 3]"

section \<open>Valid inputs and the invariants of a run\<close>

text \<open>
  The engines check nothing; what the specification calls a valid process set is a
  hypothesis of the theorems below: the list is not empty, identities are positive and
  pairwise different, arrivals are not negative, bursts are positive, and every process is in
  the state the constructor (or the reset in \<^verbatim>\<open>main\<close>) leaves it in. The four input fields
  are C++ \<^verbatim>\<open>int\<close>s.
\<close>

definition fresh :: "Process \<Rightarrow> bool" where
  "fresh p \<longleftrightarrow> p = new_Process (pid p) (arrival p) (burst p) (priority p)"

definition valid_procs :: "Process list \<Rightarrow> bool" where
  "valid_procs ps \<longleftrightarrow>
     ps \<noteq> [] \<and> distinct (map pid ps) \<and>
     (\<forall>p\<in>set ps. 0 < pid p \<and> 0 \<le> arrival p \<and> 0 < burst p \<and> fresh p \<and>
        int32 (pid p) \<and> int32 (arrival p) \<and> int32 (burst p) \<and> int32 (priority p))"

text \<open>
  No tick of a run on \<open>ps\<close> is beyond the largest \<^verbatim>\<open>int\<close>: a run is over at the latest when
  the last arrival is followed by all the work there is.
\<close>

definition no_overflow :: "Process list \<Rightarrow> bool" where
  "no_overflow ps \<longleftrightarrow> (\<forall>p\<in>set ps. arrival p + sum_list (map burst ps) \<le> 2147483647)"

text \<open>A timeline that starts at \<open>t\<close> and has no gap, and the tick at which it ends.\<close>

fun chain :: "int \<Rightarrow> GanttEntry list \<Rightarrow> bool" where
  "chain t [] = True"
| "chain t (g # gs) = (g_start g = t \<and> chain (g_end g) gs)"

definition tl_end :: "int \<Rightarrow> GanttEntry list \<Rightarrow> int" where
  "tl_end t gs = (if gs = [] then t else g_end (last gs))"

text \<open>
  The sum of the durations of the execution intervals of a timeline, in the words of the
  specification: an exact sum, where \<^verbatim>\<open>cpu_busy\<close> is the \<^verbatim>\<open>int\<close> the program accumulates.
\<close>

definition exec_ticks :: "GanttEntry list \<Rightarrow> int" where
  "exec_ticks g = sum_list (map (\<lambda>e. g_end e - g_start e) (filter (\<lambda>e. g_pid e \<noteq> -1) g))"

text \<open>
  A process that has run to its end, with turnaround and waiting time as the program
  computes them from its completion time; and the same relations free of wrap-around,
  together with the bound on the completion time.
\<close>

definition finalized :: "Process \<Rightarrow> bool" where
  "finalized p \<longleftrightarrow>
     remaining p = 0 \<and> turnaround_time p = wrap32 (completion_time p - arrival p) \<and>
     waiting_time p = wrap32 (turnaround_time p - burst p)"

definition exact_times :: "Process \<Rightarrow> bool" where
  "exact_times p \<longleftrightarrow>
     arrival p + burst p \<le> completion_time p \<and>
     turnaround_time p = completion_time p - arrival p \<and>
     waiting_time p = turnaround_time p - burst p"

text \<open>
  The invariant shared by the two loops, over the process array \<open>ps\<close>, the indices \<open>Q\<close> in
  the ready queue, the index \<open>k\<close> of the next arrival, the clock \<open>t\<close>, the counter \<open>c\<close> and
  the timeline \<open>g\<close>. The flag \<open>x\<close> adds what only holds of a run in which no \<^verbatim>\<open>int\<close>
  overflows.
\<close>

definition static_ok :: "Process list \<Rightarrow> bool" where
  "static_ok ps \<longleftrightarrow>
     sorted (map arrival ps) \<and>
     (\<forall>p\<in>set ps. pid p \<noteq> -1 \<and> 0 \<le> arrival p \<and> 0 < burst p \<and> burst p \<le> 2147483647)"

definition work_ok :: "bool \<Rightarrow> Process list \<Rightarrow> nat \<Rightarrow> int \<Rightarrow> bool" where
  "work_ok x ps k t \<longleftrightarrow>
     (\<forall>j<length ps.
        0 \<le> remaining (ps ! j) \<and> remaining (ps ! j) \<le> burst (ps ! j) \<and>
        (x \<and> j < k \<longrightarrow> arrival (ps ! j) + (burst (ps ! j) - remaining (ps ! j)) \<le> t) \<and>
        (k \<le> j \<longrightarrow> remaining (ps ! j) = burst (ps ! j)))"

definition queue_ok :: "Process list \<Rightarrow> nat list \<Rightarrow> nat \<Rightarrow> bool" where
  "queue_ok ps Q k \<longleftrightarrow>
     k \<le> length ps \<and> distinct Q \<and> set Q = {j. j < k \<and> 0 < remaining (ps ! j)}"

definition done_ok :: "bool \<Rightarrow> Process list \<Rightarrow> nat \<Rightarrow> bool" where
  "done_ok x ps c \<longleftrightarrow>
     c = length (filter (\<lambda>p. remaining p = 0) ps) \<and>
     (\<forall>p\<in>set ps. remaining p = 0 \<longrightarrow> finalized p \<and> (x \<longrightarrow> exact_times p))"

definition timeline_ok :: "bool \<Rightarrow> Process list \<Rightarrow> GanttEntry list \<Rightarrow> int \<Rightarrow> bool" where
  "timeline_ok x ps g t \<longleftrightarrow>
     chain 0 g \<and> tl_end 0 g = t \<and> (g = [] \<longrightarrow> map remaining ps = map burst ps) \<and>
     (x \<longrightarrow> (\<forall>e\<in>set g. g_start e < g_end e) \<and>
            cpu_busy g = sum_list (map burst ps) - sum_list (map remaining ps) \<and>
            exec_ticks g = cpu_busy g \<and>
            0 \<le> t \<and> t + sum_list (map remaining ps) \<le> 2147483647 \<and> no_overflow ps)"

definition sim_inv ::
  "bool \<Rightarrow> Process list \<Rightarrow> nat list \<Rightarrow> nat \<Rightarrow> int \<Rightarrow> nat \<Rightarrow> GanttEntry list \<Rightarrow> bool" where
  "sim_inv x ps Q k t c g \<longleftrightarrow>
     static_ok ps \<and> work_ok x ps k t \<and> queue_ok ps Q k \<and> done_ok x ps c \<and>
     timeline_ok x ps g t"

text \<open>The invariant of the Round Robin loop: no process still to arrive is due yet.\<close>

definition rr_inv :: "bool \<Rightarrow> rr_state \<Rightarrow> bool" where
  "rr_inv x s \<longleftrightarrow>
     sim_inv x (procs s) (q s) (idx_next_arrival s) (time s) (completed s) (gantt s) \<and>
     (\<forall>j. idx_next_arrival s \<le> j \<and> j < length (procs s) \<longrightarrow> time s < arrival (procs s ! j))"

text \<open>Every interval that runs a process lasts one tick.\<close>

definition unit_exec :: "GanttEntry list \<Rightarrow> bool" where
  "unit_exec g \<longleftrightarrow> (\<forall>e\<in>set g. g_pid e \<noteq> -1 \<longrightarrow> g_end e = g_start e + 1)"

definition pps_inv :: "bool \<Rightarrow> pps_state \<Rightarrow> bool" where
  "pps_inv x s \<longleftrightarrow>
     sim_inv x (pprocs s) (pq s) (idx s) (ptime s) (pcompleted s) (pgantt s) \<and>
     (x \<longrightarrow> unit_exec (pgantt s))"

text \<open>The total remaining work, and the input fields of a process.\<close>

definition work_left :: "Process list \<Rightarrow> int" where
  "work_left ps = sum_list (map remaining ps)"

definition desc :: "Process \<Rightarrow> int \<times> int \<times> int \<times> int" where
  "desc p = (pid p, arrival p, burst p, priority p)"

text \<open>The states in which the two loops test their condition during a run.\<close>

inductive rr_reach :: "Process list \<Rightarrow> int \<Rightarrow> rr_state \<Rightarrow> bool" for procs0 quantum where
  rr_start: "rr_reach procs0 quantum (rr_init procs0)"
| rr_next: "rr_reach procs0 quantum s \<Longrightarrow> completed s < length (procs s) \<Longrightarrow>
     rr_body quantum s = Continue s' \<Longrightarrow> rr_reach procs0 quantum s'"

inductive pps_reach :: "Process list \<Rightarrow> pps_state \<Rightarrow> bool" for procs0 where
  pps_start: "pps_reach procs0 (pps_init procs0)"
| pps_next: "pps_reach procs0 s \<Longrightarrow> pcompleted s < length (pprocs s) \<Longrightarrow>
     pps_body s = Continue s' \<Longrightarrow> pps_reach procs0 s'"




text \<open>The end of every interval is the start of the next one.\<close>

definition gapless :: "GanttEntry list \<Rightarrow> bool" where
  "gapless g \<longleftrightarrow> (\<forall>i<length g - 1. g_end (g ! i) = g_start (g ! Suc i))"

text \<open>
  What holds of the result of a run on the input \<open>ps\<close>, and what holds of it in addition when
  no \<^verbatim>\<open>int\<close> overflows.
\<close>

definition good_result :: "bool \<Rightarrow> Process list \<Rightarrow> run_result \<Rightarrow> bool" where
  "good_result x ps r \<longleftrightarrow>
     timeline r \<noteq> [] \<and> chain 0 (timeline r) \<and> (\<forall>p\<in>set (table r). finalized p) \<and>
     length (table r) = length ps \<and> desc ` set (table r) = desc ` set ps \<and>
     (x \<longrightarrow> (\<forall>e\<in>set (timeline r). g_start e < g_end e) \<and>
            cpu_busy (timeline r) = sum_list (map burst ps) \<and>
            exec_ticks (timeline r) = sum_list (map burst ps) \<and>
            (\<forall>p\<in>set (table r). exact_times p))"

section \<open>Lists, timelines and counters\<close>

lemma tl_end_simps [simp]: "tl_end t [] = t" "tl_end t (gs @ [g]) = g_end g"
  by (simp_all add: tl_end_def)

lemma chain_snoc: "chain t (gs @ [g]) \<longleftrightarrow> chain t gs \<and> g_start g = tl_end t gs"
  by (induction gs arbitrary: t) (auto simp: tl_end_def)

lemma chain_nth: "chain t gs \<Longrightarrow> Suc i < length gs \<Longrightarrow> g_end (gs ! i) = g_start (gs ! Suc i)"
proof (induction gs arbitrary: t i)
  case Nil
  then show ?case by simp
next
  case (Cons g gs)
  show ?case
  proof (cases i)
    case 0
    with Cons.prems show ?thesis by (cases gs) auto
  next
    case (Suc k)
    with Cons show ?thesis by auto
  qed
qed

lemma chain_hd: "chain t gs \<Longrightarrow> gs \<noteq> [] \<Longrightarrow> g_start (gs ! 0) = t"
  by (cases gs) auto

lemma wrap32_id: "int32 x \<Longrightarrow> wrap32 x = x"
  by (simp add: wrap32_def int32_def)

lemma wrap32_range: "-2147483648 \<le> x \<Longrightarrow> x \<le> 2147483647 \<Longrightarrow> wrap32 x = x"
  by (simp add: wrap32_def)

lemma cpu_busy_snoc:
  "cpu_busy (gs @ [g]) =
     (if g_pid g \<noteq> -1 then wrap32 (cpu_busy gs + wrap32 (g_end g - g_start g)) else cpu_busy gs)"
  by (simp add: cpu_busy_def)

lemma exec_ticks_snoc:
  "exec_ticks (gs @ [g]) =
     (if g_pid g \<noteq> -1 then exec_ticks gs + (g_end g - g_start g) else exec_ticks gs)"
  by (simp add: exec_ticks_def)

lemma nth_le_sum_list:
  fixes f :: "'a \<Rightarrow> int"
  shows "\<forall>x\<in>set xs. 0 \<le> f x \<Longrightarrow> i < length xs \<Longrightarrow> f (xs ! i) \<le> sum_list (map f xs)"
proof (induction xs arbitrary: i)
  case Nil
  then show ?case by simp
next
  case (Cons a xs)
  have "0 \<le> sum_list (map f xs)"
    by (rule sum_list_nonneg) (use Cons.prems in auto)
  show ?case
  proof (cases i)
    case 0
    with \<open>0 \<le> sum_list (map f xs)\<close> show ?thesis by simp
  next
    case (Suc k)
    then have "f (xs ! k) \<le> sum_list (map f xs)"
      using Cons.IH [of k] Cons.prems by simp
    moreover have "0 \<le> f a" using Cons.prems by simp
    ultimately show ?thesis using Suc by simp
  qed
qed

lemma sum_list_map_update:
  fixes f :: "'a \<Rightarrow> int"
  shows "i < length xs \<Longrightarrow> sum_list (map f (xs[i := y])) = sum_list (map f xs) - f (xs ! i) + f y"
  by (induction xs arbitrary: i) (auto split: nat.splits)

lemma map_update_same: "f y = f (xs ! i) \<Longrightarrow> map f (xs[i := y]) = map f xs"
  by (induction xs arbitrary: i) (auto split: nat.splits)

lemma count_update:
  "i < length xs \<Longrightarrow> \<not> P (xs ! i) \<Longrightarrow> P y \<Longrightarrow>
     length (filter P (xs[i := y])) = Suc (length (filter P xs))"
  by (induction xs arbitrary: i) (auto split: nat.splits)

lemma count_update_same:
  "P y = P (xs ! i) \<Longrightarrow> length (filter P (xs[i := y])) = length (filter P xs)"
  by (induction xs arbitrary: i) (auto split: nat.splits)

lemma count_all: "length xs \<le> length (filter P xs) \<Longrightarrow> x \<in> set xs \<Longrightarrow> P x"
  using length_filter_less [of x xs P] by auto

lemma ball_update: "\<forall>p\<in>set xs. P p \<Longrightarrow> P y \<Longrightarrow> \<forall>p\<in>set (xs[i := y]). P p"
  using set_update_subset_insert [of xs i y] by auto


lemma sum_list_sort_key:
  fixes f :: "'a \<Rightarrow> int"
  shows "sum_list (map f (sort_key k xs)) = sum_list (map f xs)"
proof -
  have "sum_list (map f (insort_key k x ys)) = f x + sum_list (map f ys)" for x ys
    by (induction ys) simp_all
  then show ?thesis by (induction xs) simp_all
qed

lemma sum_list_map_pos:
  fixes f :: "'a \<Rightarrow> int"
  assumes "xs \<noteq> []" "\<forall>x\<in>set xs. 0 < f x"
  shows "0 < sum_list (map f xs)"
proof (cases xs)
  case Nil
  with assms show ?thesis by simp
next
  case (Cons x ys)
  have "0 \<le> sum_list (map f ys)"
    by (rule sum_list_nonneg) (use assms Cons in auto)
  moreover have "0 < f x" using assms Cons by simp
  ultimately show ?thesis using Cons by simp
qed

lemma no_overflow_sort_key: "no_overflow ps \<Longrightarrow> no_overflow (sort_key k ps)"
  by (simp add: no_overflow_def sum_list_sort_key)
subsection \<open>Steps on the components\<close>

lemma queue_ok_mem: "queue_ok ps Q k \<Longrightarrow> j \<in> set Q \<longleftrightarrow> j < k \<and> 0 < remaining (ps ! j)"
  by (simp add: queue_ok_def)

lemma queue_ok_distinct: "queue_ok ps Q k \<Longrightarrow> distinct Q"
  by (simp add: queue_ok_def)

lemma queue_ok_le: "queue_ok ps Q k \<Longrightarrow> k \<le> length ps"
  by (simp add: queue_ok_def)

lemma queue_okI:
  "k \<le> length ps \<Longrightarrow> distinct Q \<Longrightarrow> (\<And>j. j \<in> set Q \<longleftrightarrow> j < k \<and> 0 < remaining (ps ! j)) \<Longrightarrow>
     queue_ok ps Q k"
  by (auto simp: queue_ok_def)

lemma work_ok_nonneg: "work_ok x ps k t \<Longrightarrow> \<forall>p\<in>set ps. 0 \<le> remaining p"
  by (auto simp: work_ok_def in_set_conv_nth)

lemma work_ok_sum_le:
  "work_ok x ps k t \<Longrightarrow> sum_list (map remaining ps) \<le> sum_list (map burst ps)"
  by (rule sum_list_mono) (auto simp: work_ok_def in_set_conv_nth)

lemma work_ok_sum_nonneg: "work_ok x ps k t \<Longrightarrow> 0 \<le> sum_list (map remaining ps)"
  by (rule sum_list_nonneg) (auto simp: work_ok_def in_set_conv_nth)

lemma no_overflow_nth:
  "no_overflow ps \<Longrightarrow> j < length ps \<Longrightarrow> arrival (ps ! j) + sum_list (map burst ps) \<le> 2147483647"
  by (simp add: no_overflow_def)

lemma sim_inv_reorder:
  "sim_inv x ps Q k t c g \<Longrightarrow> distinct Q' \<Longrightarrow> set Q' = set Q \<Longrightarrow> sim_inv x ps Q' k t c g"
  by (simp add: sim_inv_def queue_ok_def)

lemma sim_inv_admit:
  assumes inv: "sim_inv x ps Q k t c g" and k: "k \<le> k'" "k' \<le> length ps"
    and arr: "\<And>j. k \<le> j \<Longrightarrow> j < k' \<Longrightarrow> arrival (ps ! j) \<le> t"
  shows "sim_inv x ps (Q @ [k..<k']) k' t c g"
proof -
  have st: "static_ok ps" and w: "work_ok x ps k t" and qk: "queue_ok ps Q k"
    using inv by (simp_all add: sim_inv_def)
  have pos: "0 < burst (ps ! j)" if "j < length ps" for j
    using st that by (simp add: static_ok_def)
  have w': "work_ok x ps k' t"
    unfolding work_ok_def
  proof (intro allI impI conjI)
    fix j assume j: "j < length ps"
    from w j show "0 \<le> remaining (ps ! j)" "remaining (ps ! j) \<le> burst (ps ! j)"
      by (simp_all add: work_ok_def)
    { assume "k' \<le> j"
      then have "k \<le> j" using k by simp
      with w j show "remaining (ps ! j) = burst (ps ! j)" by (simp add: work_ok_def) }
    { assume xj: "x \<and> j < k'"
      show "arrival (ps ! j) + (burst (ps ! j) - remaining (ps ! j)) \<le> t"
      proof (cases "j < k")
        case True
        with w j xj show ?thesis by (simp add: work_ok_def)
      next
        case False
        then have "k \<le> j" by simp
        moreover from this w j have "remaining (ps ! j) = burst (ps ! j)"
          by (simp add: work_ok_def)
        ultimately show ?thesis using arr [of j] xj by simp
      qed }
  qed
  have q': "queue_ok ps (Q @ [k..<k']) k'"
  proof (rule queue_okI)
    show "k' \<le> length ps" by fact
    have "j \<in> set Q \<Longrightarrow> j < k" for j
      using queue_ok_mem [OF qk, of j] by simp
    then show "distinct (Q @ [k..<k'])"
      using queue_ok_distinct [OF qk] by fastforce
    fix j
    have new: "0 < remaining (ps ! j)" if "k \<le> j" "j < k'"
    proof -
      from that k have "j < length ps" by simp
      with w that pos [of j] show ?thesis by (simp add: work_ok_def)
    qed
    show "j \<in> set (Q @ [k..<k']) \<longleftrightarrow> j < k' \<and> 0 < remaining (ps ! j)"
    proof (cases "j < k")
      case True
      with queue_ok_mem [OF qk, of j] k show ?thesis by simp
    next
      case False
      with queue_ok_mem [OF qk, of j] new show ?thesis by auto
    qed
  qed
  show ?thesis using inv w' q' by (simp add: sim_inv_def)
qed

lemma sim_inv_idle:
  assumes inv: "sim_inv x ps Q k t c g" and t: "t < t'"
    and j: "j < length ps" "t' = arrival (ps ! j)"
  shows "sim_inv x ps Q k t' c (g @ [GanttEntry (-1) t t'])"
proof -
  have w: "work_ok x ps k t" and tl: "timeline_ok x ps g t"
    using inv by (simp_all add: sim_inv_def)
  have "work_ok x ps k t'"
    using w t by (fastforce simp: work_ok_def)
  moreover have "timeline_ok x ps (g @ [GanttEntry (-1) t t']) t'"
  proof (cases x)
    case False
    with tl show ?thesis by (simp add: timeline_ok_def chain_snoc)
  next
    case True
    have ex: "(\<forall>e\<in>set g. g_start e < g_end e)"
      "cpu_busy g = sum_list (map burst ps) - sum_list (map remaining ps)"
      "0 \<le> t" "no_overflow ps" "exec_ticks g = cpu_busy g"
      using tl True by (simp_all add: timeline_ok_def)
    have "t' + sum_list (map remaining ps) \<le> 2147483647"
      using no_overflow_nth [OF ex(4) j(1)] work_ok_sum_le [OF w] j(2) by simp
    moreover have "exec_ticks (g @ [GanttEntry (-1) t t']) = cpu_busy (g @ [GanttEntry (-1) t t'])"
      using ex(5) by (simp add: cpu_busy_snoc exec_ticks_snoc)
    moreover have "0 \<le> t'" using ex(3) t by simp
    moreover have "chain 0 (g @ [GanttEntry (-1) t t'])"
      using tl by (simp add: timeline_ok_def chain_snoc)
    moreover have "\<forall>e\<in>set (g @ [GanttEntry (-1) t t']). g_start e < g_end e"
      using ex(1) t by simp
    moreover have "cpu_busy (g @ [GanttEntry (-1) t t']) =
        sum_list (map burst ps) - sum_list (map remaining ps)"
      using ex(2) by (simp add: cpu_busy_snoc)
    ultimately show ?thesis using ex(4) by (simp add: timeline_ok_def)
  qed
  ultimately show ?thesis using inv by (simp add: sim_inv_def)
qed

text \<open>In a run without overflow the clock after a dispatch is the sum the program computes.\<close>

lemma sim_inv_clock:
  assumes inv: "sim_inv True ps Q k t c g" and i: "i < length ps"
    and e: "0 \<le> e" "e \<le> remaining (ps ! i)"
  shows "wrap32 (t + e) = t + e"
proof -
  have w: "work_ok True ps k t" and tl: "timeline_ok True ps g t"
    using inv by (simp_all add: sim_inv_def)
  have "remaining (ps ! i) \<le> sum_list (map remaining ps)"
    by (rule nth_le_sum_list [OF work_ok_nonneg [OF w] i])
  moreover have "0 \<le> t" "t + sum_list (map remaining ps) \<le> 2147483647"
    using tl by (simp_all add: timeline_ok_def)
  ultimately show ?thesis
    using e by (intro wrap32_range) simp_all
qed

lemma sim_inv_run:
  assumes inv: "sim_inv x ps Q k t c g"
    and i: "i \<in> set Q"
    and e: "0 < e" "e \<le> remaining (ps ! i)"
    and p': "pid p' = pid (ps ! i)" "arrival p' = arrival (ps ! i)" "burst p' = burst (ps ! i)"
      "remaining p' = remaining (ps ! i) - e"
    and t': "t' = wrap32 (t + e)"
    and fin: "remaining p' = 0 \<Longrightarrow>
      completion_time p' = t' \<and> turnaround_time p' = wrap32 (t' - arrival p') \<and>
      waiting_time p' = wrap32 (wrap32 (t' - arrival p') - burst p')"
    and Q': "distinct Q'" "\<And>j. j \<in> set Q' \<longleftrightarrow> j \<in> set Q \<and> (j = i \<longrightarrow> 0 < remaining p')"
    and c': "c' = (if remaining p' = 0 then Suc c else c)"
  shows "sim_inv x (ps[i := p']) Q' k t' c' (g @ [GanttEntry (pid p') t t'])"
proof -
  have st: "static_ok ps" and w: "work_ok x ps k t" and qk: "queue_ok ps Q k"
    and d: "done_ok x ps c" and tl: "timeline_ok x ps g t"
    using inv by (simp_all add: sim_inv_def)
  have ik: "i < k" and ri: "0 < remaining (ps ! i)"
    using queue_ok_mem [OF qk, of i] i by simp_all
  have il: "i < length ps"
    using ik queue_ok_le [OF qk] by simp
  have mem: "ps ! i \<in> set ps"
    using il by simp
  have sti: "pid (ps ! i) \<noteq> -1" "0 \<le> arrival (ps ! i)" "0 < burst (ps ! i)"
    "burst (ps ! i) \<le> 2147483647"
    using st mem by (simp_all add: static_ok_def)
  have wi: "remaining (ps ! i) \<le> burst (ps ! i)"
    "x \<Longrightarrow> arrival (ps ! i) + (burst (ps ! i) - remaining (ps ! i)) \<le> t"
    using w il ik by (simp_all add: work_ok_def)
  have tx: "t' = t + e" if x
    using sim_inv_clock [of ps Q k t c g i e] inv il e that t' by simp
  have nth: "ps[i := p'] ! j = (if j = i then p' else ps ! j)" if "j < length ps" for j
    using that by (simp add: nth_list_update)
  have b: "map burst (ps[i := p']) = map burst ps"
    by (rule map_update_same) (simp add: p')
  have r: "sum_list (map remaining (ps[i := p'])) =
      sum_list (map remaining ps) - remaining (ps ! i) + remaining p'"
    by (rule sum_list_map_update) (rule il)
  have st': "static_ok (ps[i := p'])"
  proof -
    have "map arrival (ps[i := p']) = map arrival ps"
      by (rule map_update_same) (simp add: p')
    moreover have "\<forall>p\<in>set (ps[i := p']).
        pid p \<noteq> -1 \<and> 0 \<le> arrival p \<and> 0 < burst p \<and> burst p \<le> 2147483647"
      by (rule ball_update) (use st sti p' in \<open>simp_all add: static_ok_def\<close>)
    ultimately show ?thesis using st by (simp add: static_ok_def)
  qed
  have w': "work_ok x (ps[i := p']) k t'"
    unfolding work_ok_def
  proof (intro allI impI)
    fix j assume "j < length (ps[i := p'])"
    then have j: "j < length ps" by simp
    show "0 \<le> remaining (ps[i := p'] ! j) \<and>
        remaining (ps[i := p'] ! j) \<le> burst (ps[i := p'] ! j) \<and>
        (x \<and> j < k \<longrightarrow> arrival (ps[i := p'] ! j) +
            (burst (ps[i := p'] ! j) - remaining (ps[i := p'] ! j)) \<le> t') \<and>
        (k \<le> j \<longrightarrow> remaining (ps[i := p'] ! j) = burst (ps[i := p'] ! j))"
    proof (cases "j = i")
      case True
      then show ?thesis using nth [OF j] p' e wi ik tx by auto
    next
      case False
      have "0 \<le> remaining (ps ! j)" "remaining (ps ! j) \<le> burst (ps ! j)"
        "x \<and> j < k \<longrightarrow> arrival (ps ! j) + (burst (ps ! j) - remaining (ps ! j)) \<le> t"
        "k \<le> j \<longrightarrow> remaining (ps ! j) = burst (ps ! j)"
        using w j by (simp_all add: work_ok_def)
      then show ?thesis using nth [OF j] False e(1) tx by auto
    qed
  qed
  have q': "queue_ok (ps[i := p']) Q' k"
  proof (rule queue_okI)
    show "k \<le> length (ps[i := p'])" using queue_ok_le [OF qk] by simp
    show "distinct Q'" by fact
    fix j
    show "j \<in> set Q' \<longleftrightarrow> j < k \<and> 0 < remaining (ps[i := p'] ! j)"
    proof (cases "j < k")
      case True
      then have "j < length ps" using queue_ok_le [OF qk] by simp
      then show ?thesis
        using Q'(2) [of j] queue_ok_mem [OF qk, of j] nth [of j] True ri by (cases "j = i") simp_all
    next
      case False
      then show ?thesis using Q'(2) [of j] queue_ok_mem [OF qk, of j] by simp
    qed
  qed
  have d': "done_ok x (ps[i := p']) c'"
  proof -
    have cnt: "c' = length (filter (\<lambda>p. remaining p = 0) (ps[i := p']))"
    proof (cases "remaining p' = 0")
      case True
      have "length (filter (\<lambda>p. remaining p = 0) (ps[i := p'])) =
          Suc (length (filter (\<lambda>p. remaining p = 0) ps))"
        by (rule count_update) (use il ri True in simp_all)
      then show ?thesis using True c' d by (simp add: done_ok_def)
    next
      case False
      have "length (filter (\<lambda>p. remaining p = 0) (ps[i := p'])) =
          length (filter (\<lambda>p. remaining p = 0) ps)"
        by (rule count_update_same) (use ri False in simp)
      then show ?thesis using False c' d by (simp add: done_ok_def)
    qed
    have "remaining p' = 0 \<longrightarrow> finalized p' \<and> (x \<longrightarrow> exact_times p')"
    proof (intro impI conjI)
      assume z: "remaining p' = 0"
      show "finalized p'" using fin [OF z] z by (simp add: finalized_def)
      assume x
      have "e = remaining (ps ! i)" using p' z by simp
      then have le: "arrival p' + burst p' \<le> t + e" using wi(2) [OF \<open>x\<close>] p' by simp
      have hi: "t + e \<le> 2147483647"
      proof -
        have "remaining (ps ! i) \<le> sum_list (map remaining ps)"
          by (rule nth_le_sum_list [OF work_ok_nonneg [OF w] il])
        moreover have "t + sum_list (map remaining ps) \<le> 2147483647"
          using tl \<open>x\<close> by (simp add: timeline_ok_def)
        ultimately show ?thesis using e by simp
      qed
      have a: "0 \<le> arrival p'" "0 < burst p'" using sti p' by simp_all
      have "wrap32 (t + e - arrival p') = t + e - arrival p'"
        by (rule wrap32_range) (use le hi a in simp_all)
      moreover have "wrap32 (t + e - arrival p' - burst p') = t + e - arrival p' - burst p'"
        by (rule wrap32_range) (use le hi a in simp_all)
      ultimately show "exact_times p'"
        using fin [OF z] tx [OF \<open>x\<close>] le by (simp add: exact_times_def)
    qed
    then have "\<forall>p\<in>set (ps[i := p']). remaining p = 0 \<longrightarrow> finalized p \<and> (x \<longrightarrow> exact_times p)"
      by (intro ball_update) (use d in \<open>simp_all add: done_ok_def\<close>)
    with cnt show ?thesis by (simp add: done_ok_def)
  qed
  have tl': "timeline_ok x (ps[i := p']) (g @ [GanttEntry (pid p') t t']) t'"
  proof (cases x)
    case False
    with tl show ?thesis by (simp add: timeline_ok_def chain_snoc)
  next
    case True
    have ex: "(\<forall>e\<in>set g. g_start e < g_end e)"
      "cpu_busy g = sum_list (map burst ps) - sum_list (map remaining ps)"
      "0 \<le> t" "t + sum_list (map remaining ps) \<le> 2147483647" "no_overflow ps"
      "exec_ticks g = cpu_busy g"
      using tl True by (simp_all add: timeline_ok_def)
    have te: "t' = t + e" by (rule tx [OF True])
    have rle: "remaining (ps ! i) \<le> sum_list (map remaining ps)"
      by (rule nth_le_sum_list [OF work_ok_nonneg [OF w] il])
    have sle: "sum_list (map remaining ps) \<le> sum_list (map burst ps)"
      by (rule work_ok_sum_le [OF w])
    have bhi: "sum_list (map burst ps) \<le> 2147483647"
      using no_overflow_nth [OF ex(5) il] sti(2) by simp
    have we: "wrap32 e = e"
      by (rule wrap32_range) (use e wi(1) sti(4) in simp_all)
    have "wrap32 (cpu_busy g + e) = cpu_busy g + e"
      by (rule wrap32_range) (use ex(2) e rle sle bhi in simp_all)
    then have step: "cpu_busy (g @ [GanttEntry (pid p') t t']) = cpu_busy g + e"
      using sti(1) p'(1) we by (simp add: cpu_busy_snoc te)
    have ticks: "exec_ticks (g @ [GanttEntry (pid p') t t']) =
        cpu_busy (g @ [GanttEntry (pid p') t t'])"
      unfolding step using sti(1) p'(1) ex(6) by (simp add: exec_ticks_snoc te)
    have "cpu_busy (g @ [GanttEntry (pid p') t t']) = cpu_busy g + e"
      by (rule step)
    also have "\<dots> = sum_list (map burst ps) - sum_list (map remaining ps) + e"
      using ex(2) by simp
    also have "\<dots> = sum_list (map burst (ps[i := p'])) - sum_list (map remaining (ps[i := p']))"
      unfolding b r using p'(4) by simp
    finally have busy: "cpu_busy (g @ [GanttEntry (pid p') t t']) =
        sum_list (map burst (ps[i := p'])) - sum_list (map remaining (ps[i := p']))" .
    have "chain 0 (g @ [GanttEntry (pid p') t t'])"
      using tl by (simp add: chain_snoc timeline_ok_def)
    moreover have "\<forall>x\<in>set (g @ [GanttEntry (pid p') t t']). g_start x < g_end x"
      using ex(1) e(1) te by simp
    moreover have "0 \<le> t'" using ex(3) e(1) te by simp
    moreover have "t' + sum_list (map remaining (ps[i := p'])) \<le> 2147483647"
      unfolding r using ex(4) p'(4) te by simp
    moreover have "no_overflow (ps[i := p'])"
      unfolding no_overflow_def b
      by (rule ball_update) (use ex(5) mem p'(2) in \<open>simp_all add: no_overflow_def\<close>)
    ultimately show ?thesis using busy ticks True by (simp add: timeline_ok_def)
  qed
  show ?thesis using st' w' q' d' tl' by (simp add: sim_inv_def)
qed
subsection \<open>The admission loops\<close>

lemma admit_le_spec:
  "procs (admit_le s) = procs s \<and> time (admit_le s) = time s \<and> gantt (admit_le s) = gantt s \<and>
   completed (admit_le s) = completed s \<and>
   idx_next_arrival s \<le> idx_next_arrival (admit_le s) \<and>
   (idx_next_arrival s \<le> length (procs s) \<longrightarrow> idx_next_arrival (admit_le s) \<le> length (procs s)) \<and>
   q (admit_le s) = q s @ [idx_next_arrival s..<idx_next_arrival (admit_le s)] \<and>
   (\<forall>j. idx_next_arrival s \<le> j \<and> j < idx_next_arrival (admit_le s) \<longrightarrow>
        arrival (procs s ! j) \<le> time s) \<and>
   (idx_next_arrival (admit_le s) < length (procs s) \<longrightarrow>
        time s < arrival (procs s ! idx_next_arrival (admit_le s)))"
proof (induction s rule: admit_le.induct)
  case (1 s)
  define k where "k = idx_next_arrival s"
  show ?case
  proof (cases "k < length (procs s) \<and> arrival (procs s ! k) \<le> time s")
    case True
    define s' where "s' = s\<lparr>q := q s @ [k], in_queue := (in_queue s)[k := True],
      idx_next_arrival := Suc k\<rparr>"
    have eq: "admit_le s = admit_le s'"
      using True by (subst admit_le.simps) (simp add: s'_def k_def)
    have IH: "procs (admit_le s') = procs s'" "time (admit_le s') = time s'"
      "gantt (admit_le s') = gantt s'" "completed (admit_le s') = completed s'"
      "idx_next_arrival s' \<le> idx_next_arrival (admit_le s')"
      "idx_next_arrival s' \<le> length (procs s') \<longrightarrow> idx_next_arrival (admit_le s') \<le> length (procs s')"
      "q (admit_le s') = q s' @ [idx_next_arrival s'..<idx_next_arrival (admit_le s')]"
      "\<forall>j. idx_next_arrival s' \<le> j \<and> j < idx_next_arrival (admit_le s') \<longrightarrow>
        arrival (procs s' ! j) \<le> time s'"
      "idx_next_arrival (admit_le s') < length (procs s') \<longrightarrow>
        time s' < arrival (procs s' ! idx_next_arrival (admit_le s'))"
      using 1 True by (simp_all add: s'_def k_def)
    have f: "procs s' = procs s" "time s' = time s" "gantt s' = gantt s"
      "completed s' = completed s" "idx_next_arrival s' = Suc k" "q s' = q s @ [k]"
      by (simp_all add: s'_def)
    have lt: "k < idx_next_arrival (admit_le s')"
      using IH(5) f(5) by simp
    have "\<forall>j. k \<le> j \<and> j < idx_next_arrival (admit_le s') \<longrightarrow> arrival (procs s ! j) \<le> time s"
    proof (intro allI impI)
      fix j assume j: "k \<le> j \<and> j < idx_next_arrival (admit_le s')"
      show "arrival (procs s ! j) \<le> time s"
      proof (cases "j = k")
        case True
        with \<open>k < length (procs s) \<and> arrival (procs s ! k) \<le> time s\<close> show ?thesis by simp
      next
        case False
        with j have "Suc k \<le> j" by simp
        with IH(8) j f show ?thesis by simp
      qed
    qed
    moreover have "q (admit_le s') = q s @ [k..<idx_next_arrival (admit_le s')]"
      using IH(7) f lt by (simp add: upt_conv_Cons)
    ultimately show ?thesis
      unfolding eq k_def [symmetric] using IH f lt True by simp
  next
    case False
    then have "admit_le s = s"
      by (subst admit_le.simps) (auto simp: k_def)
    with False show ?thesis by (auto simp: k_def)
  qed
qed

lemma admit_eq_spec:
  "procs (admit_eq s) = procs s \<and> time (admit_eq s) = time s \<and> gantt (admit_eq s) = gantt s \<and>
   completed (admit_eq s) = completed s \<and>
   idx_next_arrival s \<le> idx_next_arrival (admit_eq s) \<and>
   (idx_next_arrival s \<le> length (procs s) \<longrightarrow> idx_next_arrival (admit_eq s) \<le> length (procs s)) \<and>
   q (admit_eq s) = q s @ [idx_next_arrival s..<idx_next_arrival (admit_eq s)] \<and>
   (\<forall>j. idx_next_arrival s \<le> j \<and> j < idx_next_arrival (admit_eq s) \<longrightarrow>
        arrival (procs s ! j) = time s) \<and>
   (idx_next_arrival (admit_eq s) < length (procs s) \<longrightarrow>
        arrival (procs s ! idx_next_arrival (admit_eq s)) \<noteq> time s)"
proof (induction s rule: admit_eq.induct)
  case (1 s)
  define k where "k = idx_next_arrival s"
  show ?case
  proof (cases "k < length (procs s) \<and> arrival (procs s ! k) = time s")
    case True
    define s' where "s' = s\<lparr>q := q s @ [k], in_queue := (in_queue s)[k := True],
      idx_next_arrival := Suc k\<rparr>"
    have eq: "admit_eq s = admit_eq s'"
      using True by (subst admit_eq.simps) (simp add: s'_def k_def)
    have IH: "procs (admit_eq s') = procs s'" "time (admit_eq s') = time s'"
      "gantt (admit_eq s') = gantt s'" "completed (admit_eq s') = completed s'"
      "idx_next_arrival s' \<le> idx_next_arrival (admit_eq s')"
      "idx_next_arrival s' \<le> length (procs s') \<longrightarrow> idx_next_arrival (admit_eq s') \<le> length (procs s')"
      "q (admit_eq s') = q s' @ [idx_next_arrival s'..<idx_next_arrival (admit_eq s')]"
      "\<forall>j. idx_next_arrival s' \<le> j \<and> j < idx_next_arrival (admit_eq s') \<longrightarrow>
        arrival (procs s' ! j) = time s'"
      "idx_next_arrival (admit_eq s') < length (procs s') \<longrightarrow>
        arrival (procs s' ! idx_next_arrival (admit_eq s')) \<noteq> time s'"
      using 1 True by (simp_all add: s'_def k_def)
    have f: "procs s' = procs s" "time s' = time s" "gantt s' = gantt s"
      "completed s' = completed s" "idx_next_arrival s' = Suc k" "q s' = q s @ [k]"
      by (simp_all add: s'_def)
    have lt: "k < idx_next_arrival (admit_eq s')"
      using IH(5) f(5) by simp
    have "\<forall>j. k \<le> j \<and> j < idx_next_arrival (admit_eq s') \<longrightarrow> arrival (procs s ! j) = time s"
    proof (intro allI impI)
      fix j assume j: "k \<le> j \<and> j < idx_next_arrival (admit_eq s')"
      show "arrival (procs s ! j) = time s"
      proof (cases "j = k")
        case True
        with \<open>k < length (procs s) \<and> arrival (procs s ! k) = time s\<close> show ?thesis by simp
      next
        case False
        with j have "Suc k \<le> j" by simp
        with IH(8) j f show ?thesis by simp
      qed
    qed
    moreover have "q (admit_eq s') = q s @ [k..<idx_next_arrival (admit_eq s')]"
      using IH(7) f lt by (simp add: upt_conv_Cons)
    ultimately show ?thesis
      unfolding eq k_def [symmetric] using IH f lt True by simp
  next
    case False
    then have "admit_eq s = s"
      by (subst admit_eq.simps) (auto simp: k_def)
    with False show ?thesis by (auto simp: k_def)
  qed
qed

lemma admit_spec:
  "pprocs (admit s) = pprocs s \<and> ptime (admit s) = ptime s \<and> pgantt (admit s) = pgantt s \<and>
   pcompleted (admit s) = pcompleted s \<and>
   idx s \<le> idx (admit s) \<and>
   (idx s \<le> length (pprocs s) \<longrightarrow> idx (admit s) \<le> length (pprocs s)) \<and>
   pq (admit s) = pq s @ [idx s..<idx (admit s)] \<and>
   (\<forall>j. idx s \<le> j \<and> j < idx (admit s) \<longrightarrow>
        arrival (pprocs s ! j) \<le> ptime s) \<and>
   (idx (admit s) < length (pprocs s) \<longrightarrow>
        ptime s < arrival (pprocs s ! idx (admit s)))"
proof (induction s rule: admit.induct)
  case (1 s)
  define k where "k = idx s"
  show ?case
  proof (cases "k < length (pprocs s) \<and> arrival (pprocs s ! k) \<le> ptime s")
    case True
    define s' where "s' = s\<lparr>pq := pq s @ [k], idx := Suc k\<rparr>"
    have eq: "admit s = admit s'"
      using True by (subst admit.simps) (simp add: s'_def k_def)
    have IH: "pprocs (admit s') = pprocs s'" "ptime (admit s') = ptime s'"
      "pgantt (admit s') = pgantt s'" "pcompleted (admit s') = pcompleted s'"
      "idx s' \<le> idx (admit s')"
      "idx s' \<le> length (pprocs s') \<longrightarrow> idx (admit s') \<le> length (pprocs s')"
      "pq (admit s') = pq s' @ [idx s'..<idx (admit s')]"
      "\<forall>j. idx s' \<le> j \<and> j < idx (admit s') \<longrightarrow>
        arrival (pprocs s' ! j) \<le> ptime s'"
      "idx (admit s') < length (pprocs s') \<longrightarrow>
        ptime s' < arrival (pprocs s' ! idx (admit s'))"
      using 1 True by (simp_all add: s'_def k_def)
    have f: "pprocs s' = pprocs s" "ptime s' = ptime s" "pgantt s' = pgantt s"
      "pcompleted s' = pcompleted s" "idx s' = Suc k" "pq s' = pq s @ [k]"
      by (simp_all add: s'_def)
    have lt: "k < idx (admit s')"
      using IH(5) f(5) by simp
    have "\<forall>j. k \<le> j \<and> j < idx (admit s') \<longrightarrow> arrival (pprocs s ! j) \<le> ptime s"
    proof (intro allI impI)
      fix j assume j: "k \<le> j \<and> j < idx (admit s')"
      show "arrival (pprocs s ! j) \<le> ptime s"
      proof (cases "j = k")
        case True
        with \<open>k < length (pprocs s) \<and> arrival (pprocs s ! k) \<le> ptime s\<close> show ?thesis by simp
      next
        case False
        with j have "Suc k \<le> j" by simp
        with IH(8) j f show ?thesis by simp
      qed
    qed
    moreover have "pq (admit s') = pq s @ [k..<idx (admit s')]"
      using IH(7) f lt by (simp add: upt_conv_Cons)
    ultimately show ?thesis
      unfolding eq k_def [symmetric] using IH f lt True by simp
  next
    case False
    then have "admit s = s"
      by (subst admit.simps) (auto simp: k_def)
    with False show ?thesis by (auto simp: k_def)
  qed
qed

lemma push_initial_spec:
  "procs (push_initial i s) = procs s \<and> time (push_initial i s) = time s \<and>
   gantt (push_initial i s) = gantt s \<and> completed (push_initial i s) = completed s \<and>
   idx_next_arrival (push_initial i s) = idx_next_arrival s \<and>
   (\<exists>m. i \<le> m \<and> (i \<le> length (procs s) \<longrightarrow> m \<le> length (procs s)) \<and>
        q (push_initial i s) = q s @ [i..<m] \<and>
        (\<forall>j. i \<le> j \<and> j < m \<longrightarrow> arrival (procs s ! j) = 0) \<and>
        (m < length (procs s) \<longrightarrow> arrival (procs s ! m) \<noteq> 0))"
proof (induction i s rule: push_initial.induct)
  case (1 i s)
  show ?case
  proof (cases "i < length (procs s) \<and> arrival (procs s ! i) = 0")
    case True
    define s' where "s' = s\<lparr>q := q s @ [i], in_queue := (in_queue s)[i := True]\<rparr>"
    have eq: "push_initial i s = push_initial (Suc i) s'"
      using True by (subst push_initial.simps) (simp add: s'_def)
    have f: "procs s' = procs s" "time s' = time s" "gantt s' = gantt s"
      "completed s' = completed s" "idx_next_arrival s' = idx_next_arrival s" "q s' = q s @ [i]"
      by (simp_all add: s'_def)
    have IH: "procs (push_initial (Suc i) s') = procs s'"
      "time (push_initial (Suc i) s') = time s'"
      "gantt (push_initial (Suc i) s') = gantt s'"
      "completed (push_initial (Suc i) s') = completed s'"
      "idx_next_arrival (push_initial (Suc i) s') = idx_next_arrival s'"
      "\<exists>m. Suc i \<le> m \<and> (Suc i \<le> length (procs s') \<longrightarrow> m \<le> length (procs s')) \<and>
        q (push_initial (Suc i) s') = q s' @ [Suc i..<m] \<and>
        (\<forall>j. Suc i \<le> j \<and> j < m \<longrightarrow> arrival (procs s' ! j) = 0) \<and>
        (m < length (procs s') \<longrightarrow> arrival (procs s' ! m) \<noteq> 0)"
      using 1 True by (simp_all add: s'_def)
    from IH(6) obtain m where m: "Suc i \<le> m" "Suc i \<le> length (procs s) \<longrightarrow> m \<le> length (procs s)"
      "q (push_initial (Suc i) s') = q s @ [i] @ [Suc i..<m]"
      "\<forall>j. Suc i \<le> j \<and> j < m \<longrightarrow> arrival (procs s ! j) = 0"
      "m < length (procs s) \<longrightarrow> arrival (procs s ! m) \<noteq> 0"
      unfolding f by auto
    have "\<forall>j. i \<le> j \<and> j < m \<longrightarrow> arrival (procs s ! j) = 0"
    proof (intro allI impI)
      fix j assume j: "i \<le> j \<and> j < m"
      show "arrival (procs s ! j) = 0"
      proof (cases "j = i")
        case True
        with \<open>i < length (procs s) \<and> arrival (procs s ! i) = 0\<close> show ?thesis by simp
      next
        case False
        with j have "Suc i \<le> j" by simp
        with m(4) j show ?thesis by simp
      qed
    qed
    moreover have "q (push_initial (Suc i) s') = q s @ [i..<m]"
      using m(1,3) by (simp add: upt_conv_Cons)
    moreover have "i \<le> m" "m \<le> length (procs s)"
      using m(1,2) True by simp_all
    ultimately have "\<exists>m. i \<le> m \<and> (i \<le> length (procs s) \<longrightarrow> m \<le> length (procs s)) \<and>
        q (push_initial (Suc i) s') = q s @ [i..<m] \<and>
        (\<forall>j. i \<le> j \<and> j < m \<longrightarrow> arrival (procs s ! j) = 0) \<and>
        (m < length (procs s) \<longrightarrow> arrival (procs s ! m) \<noteq> 0)"
      using m(5) by blast
    then show ?thesis
      unfolding eq using IH(1-5) f by simp
  next
    case False
    then have eq: "push_initial i s = s"
      by (subst push_initial.simps) auto
    have "i \<le> i \<and> (i \<le> length (procs s) \<longrightarrow> i \<le> length (procs s)) \<and>
        q s = q s @ [i..<i] \<and>
        (\<forall>j. i \<le> j \<and> j < i \<longrightarrow> arrival (procs s ! j) = 0) \<and>
        (i < length (procs s) \<longrightarrow> arrival (procs s ! i) \<noteq> 0)"
      using False by auto
    then show ?thesis unfolding eq by blast
  qed
qed

lemma skip_initial_spec:
  "procs (skip_initial s) = procs s \<and> q (skip_initial s) = q s \<and>
   time (skip_initial s) = time s \<and>
   gantt (skip_initial s) = gantt s \<and> completed (skip_initial s) = completed s \<and>
   idx_next_arrival s \<le> idx_next_arrival (skip_initial s) \<and>
   (idx_next_arrival s \<le> length (procs s) \<longrightarrow>
      idx_next_arrival (skip_initial s) \<le> length (procs s)) \<and>
   (\<forall>j. idx_next_arrival s \<le> j \<and> j < idx_next_arrival (skip_initial s) \<longrightarrow>
        arrival (procs s ! j) = 0) \<and>
   (idx_next_arrival (skip_initial s) < length (procs s) \<longrightarrow>
        arrival (procs s ! idx_next_arrival (skip_initial s)) \<noteq> 0)"
proof (induction s rule: skip_initial.induct)
  case (1 s)
  define k where "k = idx_next_arrival s"
  show ?case
  proof (cases "k < length (procs s) \<and> arrival (procs s ! k) = 0")
    case True
    define s' where "s' = s\<lparr>idx_next_arrival := Suc k\<rparr>"
    have eq: "skip_initial s = skip_initial s'"
      using True by (subst skip_initial.simps) (simp add: s'_def k_def)
    have IH: "procs (skip_initial s') = procs s'" "q (skip_initial s') = q s'"
      "time (skip_initial s') = time s'"
      "gantt (skip_initial s') = gantt s'" "completed (skip_initial s') = completed s'"
      "idx_next_arrival s' \<le> idx_next_arrival (skip_initial s')"
      "idx_next_arrival s' \<le> length (procs s') \<longrightarrow>
         idx_next_arrival (skip_initial s') \<le> length (procs s')"
      "\<forall>j. idx_next_arrival s' \<le> j \<and> j < idx_next_arrival (skip_initial s') \<longrightarrow>
        arrival (procs s' ! j) = 0"
      "idx_next_arrival (skip_initial s') < length (procs s') \<longrightarrow>
        arrival (procs s' ! idx_next_arrival (skip_initial s')) \<noteq> 0"
      using 1 True by (simp_all add: s'_def k_def)
    have f: "procs s' = procs s" "time s' = time s" "gantt s' = gantt s"
      "completed s' = completed s" "idx_next_arrival s' = Suc k" "q s' = q s"
      by (simp_all add: s'_def)
    have lt: "k < idx_next_arrival (skip_initial s')"
      using IH(6) f(5) by simp
    have "\<forall>j. k \<le> j \<and> j < idx_next_arrival (skip_initial s') \<longrightarrow> arrival (procs s ! j) = 0"
    proof (intro allI impI)
      fix j assume j: "k \<le> j \<and> j < idx_next_arrival (skip_initial s')"
      show "arrival (procs s ! j) = 0"
      proof (cases "j = k")
        case True
        with \<open>k < length (procs s) \<and> arrival (procs s ! k) = 0\<close> show ?thesis by simp
      next
        case False
        with j have "Suc k \<le> j" by simp
        with IH(8) j f show ?thesis by simp
      qed
    qed
    then show ?thesis
      unfolding eq k_def [symmetric] using IH f lt True by simp
  next
    case False
    then have "skip_initial s = s"
      by (subst skip_initial.simps) (auto simp: k_def)
    with False show ?thesis by (auto simp: k_def)
  qed
qed

lemma first_unique:
  fixes m m' :: nat
  assumes "m \<le> n" "m' \<le> n" "\<forall>j<m. P j" "\<forall>j<m'. P j" "m < n \<longrightarrow> \<not> P m" "m' < n \<longrightarrow> \<not> P m'"
  shows "m = m'"
proof (rule ccontr)
  assume "m \<noteq> m'"
  then consider "m < m'" | "m' < m" by linarith
  then show False
  proof cases
    case 1
    with assms show False by auto
  next
    case 2
    with assms show False by auto
  qed
qed

subsection \<open>The body of the Round Robin loop\<close>

lemma static_ok_mono:
  "static_ok ps \<Longrightarrow> i \<le> j \<Longrightarrow> j < length ps \<Longrightarrow> arrival (ps ! i) \<le> arrival (ps ! j)"
  using sorted_nth_mono [of "map arrival ps" i j] by (simp add: static_ok_def)

lemma sim_inv_static: "sim_inv x ps Q k t c g \<Longrightarrow> static_ok ps"
  by (simp add: sim_inv_def)

lemma sim_inv_queue: "sim_inv x ps Q k t c g \<Longrightarrow> queue_ok ps Q k"
  by (simp add: sim_inv_def)

lemma map_desc_update:
  "pid p' = pid (ps ! i) \<Longrightarrow> arrival p' = arrival (ps ! i) \<Longrightarrow> burst p' = burst (ps ! i) \<Longrightarrow>
   priority p' = priority (ps ! i) \<Longrightarrow> map desc (ps[i := p']) = map desc ps"
  by (rule map_update_same) (simp add: desc_def)

lemma rr_body_idle:
  assumes inv: "rr_inv x s" and emp: "q s = []" and lt: "idx_next_arrival s < length (procs s)"
  shows "\<exists>s'. rr_body quantum s = Continue s' \<and> rr_inv x s' \<and> procs s' = procs s \<and>
           idx_next_arrival s < idx_next_arrival s' \<and> idx_next_arrival s' \<le> length (procs s)"
proof -
  define k where "k = idx_next_arrival s"
  define next_t where "next_t = arrival (procs s ! k)"
  define s1 where "s1 = s\<lparr>gantt := gantt s @ [GanttEntry (-1) (time s) next_t], time := next_t\<rparr>"
  define s' where "s' = admit_eq s1"
  define k' where "k' = idx_next_arrival s'"
  have si: "sim_inv x (procs s) [] k (time s) (completed s) (gantt s)"
    and fut: "\<And>j. k \<le> j \<Longrightarrow> j < length (procs s) \<Longrightarrow> time s < arrival (procs s ! j)"
    using inv emp by (simp_all add: rr_inv_def k_def)
  have tlt: "time s < next_t"
    using fut [of k] lt by (simp add: k_def next_t_def)
  have body: "rr_body quantum s = Continue s'"
    using emp lt tlt by (simp add: rr_body_def Let_def s'_def s1_def next_t_def k_def)
  have f1: "procs s1 = procs s" "time s1 = next_t" "completed s1 = completed s" "q s1 = []"
    "gantt s1 = gantt s @ [GanttEntry (-1) (time s) next_t]" "idx_next_arrival s1 = k"
    by (simp_all add: s1_def emp k_def)
  have sp: "procs s' = procs s" "time s' = next_t" "completed s' = completed s"
    "gantt s' = gantt s @ [GanttEntry (-1) (time s) next_t]"
    "k \<le> k'" "k' \<le> length (procs s)" "q s' = [k..<k']"
    "\<And>j. k \<le> j \<Longrightarrow> j < k' \<Longrightarrow> arrival (procs s ! j) = next_t"
    "k' < length (procs s) \<Longrightarrow> arrival (procs s ! k') \<noteq> next_t"
    using admit_eq_spec [of s1] lt unfolding s'_def [symmetric] f1 k'_def [symmetric]
    by (simp_all add: k_def)
  have kk: "k < k'"
  proof (rule ccontr)
    assume "\<not> k < k'"
    with sp(5) have "k' = k" by simp
    with sp(9) lt show False by (simp add: k_def next_t_def)
  qed
  have "sim_inv x (procs s) [] k next_t (completed s) (gantt s @ [GanttEntry (-1) (time s) next_t])"
    by (rule sim_inv_idle [OF si tlt, of k]) (use lt in \<open>simp_all add: k_def next_t_def\<close>)
  then have "sim_inv x (procs s) ([] @ [k..<k']) k' next_t (completed s)
      (gantt s @ [GanttEntry (-1) (time s) next_t])"
    by (rule sim_inv_admit) (use sp in simp_all)
  then have a: "sim_inv x (procs s') (q s') k' (time s') (completed s') (gantt s')"
    using sp by simp
  have b: "time s' < arrival (procs s' ! j)" if "k' \<le> j" "j < length (procs s')" for j
  proof -
    have j: "j < length (procs s)" using that sp by simp
    have st: "static_ok (procs s)" by (rule sim_inv_static [OF si])
    have "arrival (procs s ! k) \<le> arrival (procs s ! k')"
      by (rule static_ok_mono [OF st]) (use kk that j in simp_all)
    moreover have "arrival (procs s ! k') \<noteq> next_t"
      using sp(9) that j by simp
    moreover have "arrival (procs s ! k') \<le> arrival (procs s ! j)"
      by (rule static_ok_mono [OF st]) (use that j in simp_all)
    ultimately show ?thesis using sp(1,2) by (simp add: next_t_def)
  qed
  have "rr_inv x s'"
    using a b by (simp add: rr_inv_def k'_def)
  then show ?thesis
    using body sp kk by (auto simp: k_def k'_def)
qed

lemma sum_list_nonneg_remaining:
  "work_ok x ps k t \<Longrightarrow> 0 \<le> work_left ps"
  unfolding work_left_def
  by (rule sum_list_nonneg) (auto simp: work_ok_def in_set_conv_nth)

lemma sim_inv_work: "sim_inv x ps Q k t c g \<Longrightarrow> work_ok x ps k t"
  by (simp add: sim_inv_def)

lemma rr_body_exec:
  assumes inv: "rr_inv x s" and ne: "q s \<noteq> []" and qpos: "0 < quantum"
  shows "\<exists>s'. rr_body quantum s = Continue s' \<and> rr_inv x s' \<and>
           work_left (procs s') < work_left (procs s) \<and>
           idx_next_arrival s \<le> idx_next_arrival s' \<and>
           idx_next_arrival s' \<le> length (procs s') \<and>
           map desc (procs s') = map desc (procs s) \<and>
           time s' = wrap32 (time s + min quantum (remaining (procs s ! hd (q s)))) \<and>
           (x \<longrightarrow> time s' = time s + min quantum (remaining (procs s ! hd (q s)))) \<and>
           (quantum < remaining (procs s ! hd (q s)) \<longrightarrow>
              q s' = tl (q s) @ [idx_next_arrival s..<idx_next_arrival s'] @ [hd (q s)])"
proof -
  define ps where "ps = procs s"
  define k where "k = idx_next_arrival s"
  define t where "t = time s"
  define i where "i = hd (q s)"
  define p1 where "p1 = (if start_time (ps ! i) = -1 then (ps ! i)\<lparr>start_time := t\<rparr> else ps ! i)"
  define e where "e = min quantum (remaining p1)"
  define p2 where "p2 = p1\<lparr>remaining := wrap32 (remaining p1 - e)\<rparr>"
  define t' where "t' = wrap32 (t + e)"
  define g' where "g' = gantt s @ [GanttEntry (pid p1) t t']"
  define sA where "sA = s\<lparr>q := tl (q s), in_queue := (in_queue s)[i := False],
      procs := ps[i := p2], gantt := g', time := t'\<rparr>"
  define s1 where "s1 = admit_le sA"
  define k' where "k' = idx_next_arrival s1"
  define p3 where "p3 = p2\<lparr>completion_time := time s1,
      turnaround_time := wrap32 (time s1 - arrival p2),
      waiting_time := wrap32 (wrap32 (time s1 - arrival p2) - burst p2)\<rparr>"
  define sT where "sT = s1\<lparr>q := q s1 @ [i], in_queue := (in_queue s1)[i := True]\<rparr>"
  define sF where "sF = s1\<lparr>procs := (procs s1)[i := p3], completed := Suc (completed s1)\<rparr>"
  define s' where "s' = (if 0 < remaining p2 then sT else sF)"
  have "rr_body quantum s = (if 0 < remaining p2 then Continue sT else Continue sF)"
    unfolding rr_body_def sT_def sF_def p3_def s1_def sA_def g'_def t'_def p2_def e_def p1_def
      i_def t_def ps_def Let_def
    using ne by (simp only: if_False)
  then have body: "rr_body quantum s = Continue s'"
    by (simp add: s'_def)
  have fA: "procs sA = ps[i := p2]" "time sA = t'" "completed sA = completed s"
    "q sA = tl (q s)" "gantt sA = g'" "idx_next_arrival sA = k"
    by (simp_all add: sA_def k_def)
  have sp: "procs s1 = ps[i := p2]" "time s1 = t'" "completed s1 = completed s"
    "gantt s1 = g'" "k \<le> k'" "q s1 = tl (q s) @ [k..<k']"
    "\<And>j. k \<le> j \<Longrightarrow> j < k' \<Longrightarrow> arrival (ps[i := p2] ! j) \<le> t'"
    "k' < length ps \<Longrightarrow> t' < arrival (ps[i := p2] ! k')"
    "k \<le> length ps \<Longrightarrow> k' \<le> length ps"
    using admit_le_spec [of sA] unfolding s1_def [symmetric] fA k'_def [symmetric]
    by simp_all
  have si: "sim_inv x ps (q s) k t (completed s) (gantt s)"
    using inv by (simp add: rr_inv_def ps_def k_def t_def)
  have qk: "queue_ok ps (q s) k" by (rule sim_inv_queue [OF si])
  have iq: "i \<in> set (q s)" using ne by (simp add: i_def)
  have ik: "i < k" and ri: "0 < remaining (ps ! i)"
    using queue_ok_mem [OF qk, of i] iq by simp_all
  have kl: "k \<le> length ps" by (rule queue_ok_le [OF qk])
  have il: "i < length ps" using ik kl by simp
  have k'l: "k' \<le> length ps" by (rule sp(9) [OF kl])
  have d1: "pid p1 = pid (ps ! i)" "arrival p1 = arrival (ps ! i)" "burst p1 = burst (ps ! i)"
    "priority p1 = priority (ps ! i)" "remaining p1 = remaining (ps ! i)"
    by (simp_all add: p1_def)
  have e: "0 < e" "e \<le> remaining (ps ! i)"
    using qpos ri by (simp_all add: e_def d1)
  have "remaining (ps ! i) \<le> burst (ps ! i)"
    using sim_inv_work [OF si] il by (simp add: work_ok_def)
  moreover have "burst (ps ! i) \<le> 2147483647"
    using sim_inv_static [OF si] il by (simp add: static_ok_def)
  ultimately have we: "wrap32 (remaining (ps ! i) - e) = remaining (ps ! i) - e"
    using e by (intro wrap32_range) simp_all
  have tx: "t' = t + e" if x
    using sim_inv_clock [of ps "q s" k t "completed s" "gantt s" i e] si il e that
    by (simp add: t'_def)
  have d2: "pid p2 = pid (ps ! i)" "arrival p2 = arrival (ps ! i)" "burst p2 = burst (ps ! i)"
    "priority p2 = priority (ps ! i)" "remaining p2 = remaining (ps ! i) - e"
    by (simp_all add: p2_def d1 we)
  have d3: "pid p3 = pid (ps ! i)" "arrival p3 = arrival (ps ! i)" "burst p3 = burst (ps ! i)"
    "priority p3 = priority (ps ! i)" "remaining p3 = remaining (ps ! i) - e"
    "completion_time p3 = t'" "turnaround_time p3 = wrap32 (t' - arrival p3)"
    "waiting_time p3 = wrap32 (wrap32 (t' - arrival p3) - burst p3)"
    by (simp_all add: p3_def d2 sp(2))
  have g': "g' = gantt s @ [GanttEntry (pid p2) t t']"
    "g' = gantt s @ [GanttEntry (pid p3) t t']"
    by (simp_all add: g'_def d1 d2 d3)
  have dq: "distinct (q s)" by (rule queue_ok_distinct [OF qk])
  obtain rest where qs: "q s = i # rest"
    using ne by (cases "q s") (simp_all add: i_def)
  have tlq: "tl (q s) = rest" by (simp add: qs)
  have itl: "i \<notin> set rest" "distinct rest"
    using dq by (simp_all add: qs)
  have mem_tl: "j \<in> set rest \<longleftrightarrow> j \<in> set (q s) \<and> j \<noteq> i" for j
    using itl(1) by (auto simp: qs)
  have lt_tl: "j < k" if "j \<in> set rest" for j
    using queue_ok_mem [OF qk, of j] that by (simp add: qs)
  have arr: "arrival (ps[i := p] ! j) = arrival (ps ! j)" if "arrival p = arrival (ps ! i)" for p j
    using that il by (cases "j = i") simp_all
  show ?thesis
  proof (cases "0 < remaining p2")
    case True
    have s': "procs s' = ps[i := p2]" "time s' = t'" "completed s' = completed s"
      "gantt s' = g'" "q s' = rest @ [k..<k'] @ [i]" "idx_next_arrival s' = k'"
      using True sp by (simp_all add: s'_def sT_def k'_def tlq)
    have "sim_inv x (ps[i := p2]) (q s) k t' (completed s) g'"
      unfolding g'(1)
    proof (rule sim_inv_run [OF si iq e d2(1,2,3,5) t'_def])
      show "distinct (q s)" by (rule dq)
      show "j \<in> set (q s) \<longleftrightarrow> j \<in> set (q s) \<and> (j = i \<longrightarrow> 0 < remaining p2)" for j
        using True by simp
      show "completed s = (if remaining p2 = 0 then Suc (completed s) else completed s)"
        using True by simp
      show "completion_time p2 = t' \<and> turnaround_time p2 = wrap32 (t' - arrival p2) \<and>
          waiting_time p2 = wrap32 (wrap32 (t' - arrival p2) - burst p2)" if "remaining p2 = 0"
        using that True by simp
    qed
    then have "sim_inv x (ps[i := p2]) (q s @ [k..<k']) k' t' (completed s) g'"
      by (rule sim_inv_admit) (use sp k'l in simp_all)
    then have a: "sim_inv x (ps[i := p2]) (rest @ [k..<k'] @ [i]) k' t' (completed s) g'"
    proof (rule sim_inv_reorder)
      show "distinct (rest @ [k..<k'] @ [i])"
        using itl ik lt_tl by fastforce
      show "set (rest @ [k..<k'] @ [i]) = set (q s @ [k..<k'])"
        by (auto simp: qs)
    qed
    have st': "static_ok (ps[i := p2])" by (rule sim_inv_static [OF a])
    have b: "t' < arrival (ps[i := p2] ! j)" if "k' \<le> j" "j < length ps" for j
    proof -
      have "t' < arrival (ps[i := p2] ! k')" using sp(8) that by simp
      moreover have "arrival (ps[i := p2] ! k') \<le> arrival (ps[i := p2] ! j)"
        by (rule static_ok_mono [OF st']) (use that in simp_all)
      ultimately show ?thesis by simp
    qed
    have inv': "rr_inv x s'"
      using a b by (simp add: rr_inv_def s')
    have "work_left (ps[i := p2]) = work_left ps - remaining (ps ! i) + remaining p2"
      unfolding work_left_def by (rule sum_list_map_update [OF il])
    then have dec: "work_left (procs s') < work_left (procs s)"
      using e d2 by (simp add: s' ps_def)
    have "map desc (ps[i := p2]) = map desc ps"
      by (rule map_desc_update) (simp_all add: d2)
    moreover have "time s' = wrap32 (time s + min quantum (remaining (procs s ! hd (q s))))"
      by (simp add: s' t'_def t_def e_def d1 ps_def i_def)
    moreover have "x \<longrightarrow> time s' = time s + min quantum (remaining (procs s ! hd (q s)))"
      using tx by (simp add: s' t_def e_def d1 ps_def i_def)
    moreover have "q s' = tl (q s) @ [idx_next_arrival s..<idx_next_arrival s'] @ [hd (q s)]"
      by (simp add: s' tlq k_def i_def)
    ultimately show ?thesis
      using body inv' dec sp(5) k'l by (simp add: s' ps_def k_def)
  next
    case False
    have z: "remaining p3 = 0" using False e d2 d3 by simp
    have s': "procs s' = ps[i := p3]" "time s' = t'" "completed s' = Suc (completed s)"
      "gantt s' = g'" "q s' = rest @ [k..<k']" "idx_next_arrival s' = k'"
      using False sp by (simp_all add: s'_def sF_def k'_def tlq)
    have "sim_inv x (ps[i := p3]) rest k t' (Suc (completed s)) g'"
      unfolding g'(2)
    proof (rule sim_inv_run [OF si iq e d3(1,2,3,5) t'_def])
      show "completion_time p3 = t' \<and> turnaround_time p3 = wrap32 (t' - arrival p3) \<and>
          waiting_time p3 = wrap32 (wrap32 (t' - arrival p3) - burst p3)"
        using d3 by simp
      show "distinct rest" by (rule itl)
      show "j \<in> set rest \<longleftrightarrow> j \<in> set (q s) \<and> (j = i \<longrightarrow> 0 < remaining p3)" for j
        using mem_tl [of j] z by auto
      show "Suc (completed s) = (if remaining p3 = 0 then Suc (completed s) else completed s)"
        using z by simp
    qed
    then have a: "sim_inv x (ps[i := p3]) (rest @ [k..<k']) k' t' (Suc (completed s)) g'"
    proof (rule sim_inv_admit)
      show "k \<le> k'" "k' \<le> length (ps[i := p3])" using sp(5) k'l by simp_all
      fix j assume "k \<le> j" "j < k'"
      then show "arrival (ps[i := p3] ! j) \<le> t'"
        using sp(7) [of j] arr [of p3 j] arr [of p2 j] d2 d3 by simp
    qed
    have st': "static_ok (ps[i := p3])" by (rule sim_inv_static [OF a])
    have b: "t' < arrival (ps[i := p3] ! j)" if "k' \<le> j" "j < length ps" for j
    proof -
      have "t' < arrival (ps[i := p3] ! k')"
        using sp(8) that arr [of p3 k'] arr [of p2 k'] d2 d3 by simp
      moreover have "arrival (ps[i := p3] ! k') \<le> arrival (ps[i := p3] ! j)"
        by (rule static_ok_mono [OF st']) (use that in simp_all)
      ultimately show ?thesis by simp
    qed
    have inv': "rr_inv x s'"
      using a b by (simp add: rr_inv_def s')
    have "work_left (ps[i := p3]) = work_left ps - remaining (ps ! i) + remaining p3"
      unfolding work_left_def by (rule sum_list_map_update [OF il])
    then have dec: "work_left (procs s') < work_left (procs s)"
      using e d3 by (simp add: s' ps_def)
    have "map desc (ps[i := p3]) = map desc ps"
      by (rule map_desc_update) (simp_all add: d3)
    moreover have "time s' = wrap32 (time s + min quantum (remaining (procs s ! hd (q s))))"
      by (simp add: s' t'_def t_def e_def d1 ps_def i_def)
    moreover have "x \<longrightarrow> time s' = time s + min quantum (remaining (procs s ! hd (q s)))"
      using tx by (simp add: s' t_def e_def d1 ps_def i_def)
    moreover have "\<not> quantum < remaining (procs s ! hd (q s))"
      using False d2 by (simp add: e_def d1 ps_def i_def)
    ultimately show ?thesis
      using body inv' dec sp(5) k'l by (simp add: s' ps_def k_def)
  qed
qed

lemma all_done_by_count:
  assumes "sim_inv x ps Q k t c g" "length ps \<le> c"
  shows "\<forall>p\<in>set ps. remaining p = 0"
proof
  fix p assume "p \<in> set ps"
  moreover have "length ps \<le> length (filter (\<lambda>p. remaining p = 0) ps)"
    using assms by (simp add: sim_inv_def done_ok_def)
  ultimately show "remaining p = 0" by (rule count_all [rotated])
qed

lemma all_done_by_queue:
  assumes inv: "sim_inv x ps [] k t c g" and k: "length ps \<le> k"
  shows "\<forall>p\<in>set ps. remaining p = 0"
proof
  fix p assume "p \<in> set ps"
  then obtain j where j: "j < length ps" "p = ps ! j"
    by (auto simp: in_set_conv_nth)
  have "\<not> 0 < remaining (ps ! j)"
    using queue_ok_mem [OF sim_inv_queue [OF inv], of j] j k by simp
  moreover have "0 \<le> remaining (ps ! j)"
    using sim_inv_work [OF inv] j by (simp add: work_ok_def)
  ultimately show "remaining p = 0" using j by simp
qed

lemma rr_loop_total:
  assumes "rr_inv x s" "0 < quantum"
  shows "\<exists>s'. rr_loop quantum s = Some s' \<and> rr_inv x s' \<and>
           (\<forall>p\<in>set (procs s'). remaining p = 0) \<and> map desc (procs s') = map desc (procs s)"
  using assms(1)
proof (induction "nat (work_left (procs s)) + (length (procs s) - idx_next_arrival s)"
    arbitrary: s rule: less_induct)
  case less
  note inv = \<open>rr_inv x s\<close>
  have si: "sim_inv x (procs s) (q s) (idx_next_arrival s) (time s) (completed s) (gantt s)"
    using inv by (simp add: rr_inv_def)
  have nonneg: "0 \<le> work_left (procs s)"
    by (rule sum_list_nonneg_remaining [OF sim_inv_work [OF si]])
  show ?case
  proof (cases "completed s < length (procs s)")
    case False
    then have "rr_loop quantum s = Some s"
      by (subst rr_loop.simps) simp
    moreover have "\<forall>p\<in>set (procs s). remaining p = 0"
      by (rule all_done_by_count [OF si]) (use False in simp)
    ultimately show ?thesis using inv by simp
  next
    case run: True
    show ?thesis
    proof (cases "q s = []")
      case empty: True
      show ?thesis
      proof (cases "idx_next_arrival s < length (procs s)")
        case True
        from rr_body_idle [OF inv empty True, of quantum]
        obtain s1 where s1: "rr_body quantum s = Continue s1" "rr_inv x s1" "procs s1 = procs s"
          "idx_next_arrival s < idx_next_arrival s1" "idx_next_arrival s1 \<le> length (procs s)"
          by blast
        have "nat (work_left (procs s1)) + (length (procs s1) - idx_next_arrival s1)
            < nat (work_left (procs s)) + (length (procs s) - idx_next_arrival s)"
          using s1(3,4,5) True by simp
        from less.hyps [OF this s1(2)]
        obtain s' where s': "rr_loop quantum s1 = Some s'" "rr_inv x s'"
          "\<forall>p\<in>set (procs s'). remaining p = 0" "map desc (procs s') = map desc (procs s1)"
          by blast
        have "rr_loop quantum s = rr_loop quantum s1"
          using run s1(1) by (subst rr_loop.simps) simp
        then show ?thesis using s' s1(3) by simp
      next
        case False
        then have "rr_body quantum s = Break"
          using empty by (simp add: rr_body_def)
        then have "rr_loop quantum s = Some s"
          using run by (subst rr_loop.simps) simp
        moreover have "\<forall>p\<in>set (procs s). remaining p = 0"
          by (rule all_done_by_queue [of _ _ "idx_next_arrival s" "time s" "completed s" "gantt s"])
            (use si empty False in simp_all)
        ultimately show ?thesis using inv by simp
      qed
    next
      case False
      from rr_body_exec [OF inv False assms(2)]
      obtain s1 where s1: "rr_body quantum s = Continue s1" "rr_inv x s1"
        "work_left (procs s1) < work_left (procs s)"
        "idx_next_arrival s \<le> idx_next_arrival s1"
        "idx_next_arrival s1 \<le> length (procs s1)"
        "map desc (procs s1) = map desc (procs s)"
        by blast
      have len: "length (procs s1) = length (procs s)"
        using s1(6) by (metis length_map)
      have si1: "sim_inv x (procs s1) (q s1) (idx_next_arrival s1) (time s1) (completed s1) (gantt s1)"
        using s1(2) by (simp add: rr_inv_def)
      have "0 \<le> work_left (procs s1)"
        by (rule sum_list_nonneg_remaining [OF sim_inv_work [OF si1]])
      then have "nat (work_left (procs s1)) + (length (procs s1) - idx_next_arrival s1)
          < nat (work_left (procs s)) + (length (procs s) - idx_next_arrival s)"
        using s1(3,4) len by simp
      from less.hyps [OF this s1(2)]
      obtain s' where s': "rr_loop quantum s1 = Some s'" "rr_inv x s'"
        "\<forall>p\<in>set (procs s'). remaining p = 0" "map desc (procs s') = map desc (procs s1)"
        by blast
      have "rr_loop quantum s = rr_loop quantum s1"
        using run s1(1) by (subst rr_loop.simps) simp
      then show ?thesis using s' s1(6) by simp
    qed
  qed
qed

subsection \<open>Entering the loops\<close>

lemma sorted_fst_of_pairs:
  "sorted (map (\<lambda>p. (f p :: int, g p :: 'b :: linorder)) xs) \<Longrightarrow> sorted (map f xs)"
  by (induction xs) (auto simp: less_eq_prod_def)

lemma sim_inv_start:
  assumes srt: "sorted (map arrival ps)"
    and ok: "\<forall>p\<in>set ps. pid p \<noteq> -1 \<and> 0 \<le> arrival p \<and> 0 < burst p \<and>
      burst p \<le> 2147483647 \<and> remaining p = burst p"
    and nov: "x \<Longrightarrow> no_overflow ps"
  shows "sim_inv x ps [] 0 0 0 []"
proof -
  have "static_ok ps"
    using srt ok by (simp add: static_ok_def)
  moreover have "work_ok x ps 0 0"
    unfolding work_ok_def
  proof (intro allI impI)
    fix j assume "j < length ps"
    then have "ps ! j \<in> set ps" by simp
    with ok have "0 < burst (ps ! j)" "remaining (ps ! j) = burst (ps ! j)" by auto
    then show "0 \<le> remaining (ps ! j) \<and> remaining (ps ! j) \<le> burst (ps ! j) \<and>
        (x \<and> j < 0 \<longrightarrow> arrival (ps ! j) + (burst (ps ! j) - remaining (ps ! j)) \<le> 0) \<and>
        (0 \<le> j \<longrightarrow> remaining (ps ! j) = burst (ps ! j))"
      by simp
  qed
  moreover have "queue_ok ps [] 0"
    by (simp add: queue_ok_def)
  moreover have "done_ok x ps 0"
  proof -
    have "filter (\<lambda>p. remaining p = 0) ps = []"
      using ok by (auto simp: filter_empty_conv)
    moreover have "\<forall>p\<in>set ps. remaining p = 0 \<longrightarrow> finalized p \<and> (x \<longrightarrow> exact_times p)"
      using ok by auto
    ultimately show ?thesis by (simp add: done_ok_def)
  qed
  moreover have "timeline_ok x ps [] 0"
  proof -
    have eq: "map remaining ps = map burst ps"
      using ok by simp
    then have z: "sum_list (map burst ps) - sum_list (map remaining ps) = 0"
      by (simp only: diff_self)
    have "sum_list (map burst ps) \<le> 2147483647" if x
    proof (cases ps)
      case Nil
      then show ?thesis by simp
    next
      case (Cons p ps')
      then have "arrival p + sum_list (map burst ps) \<le> 2147483647" "0 \<le> arrival p"
        using nov [OF that] ok by (simp_all add: no_overflow_def)
      then show ?thesis by simp
    qed
    then have "x \<longrightarrow> sum_list (map remaining ps) \<le> 2147483647"
      unfolding eq by simp
    then show ?thesis using eq z nov by (simp add: timeline_ok_def cpu_busy_def exec_ticks_def)
  qed
  ultimately show ?thesis by (simp add: sim_inv_def)
qed

lemma rr_sort_props:
  "sorted (map arrival (rr_sort ps))" "set (rr_sort ps) = set ps" "length (rr_sort ps) = length ps"
proof -
  have "sorted (map (\<lambda>p. (arrival p, pid p)) (rr_sort ps))"
    unfolding rr_sort_def by (rule sorted_sort_key)
  then show "sorted (map arrival (rr_sort ps))"
    by (rule sorted_fst_of_pairs)
qed (simp_all add: rr_sort_def)

lemma rr_init_inv:
  assumes ok: "\<forall>p\<in>set ps. pid p \<noteq> -1 \<and> 0 \<le> arrival p \<and> 0 < burst p \<and>
      burst p \<le> 2147483647 \<and> remaining p = burst p"
    and nov: "x \<Longrightarrow> no_overflow ps"
  shows "rr_inv x (rr_init ps) \<and> procs (rr_init ps) = rr_sort ps \<and>
         (ps \<noteq> [] \<longrightarrow> q (rr_init ps) \<noteq> [])"
proof -
  define ps' where "ps' = rr_sort ps"
  define n where "n = length ps'"
  define s0 where "s0 = \<lparr>procs = ps', q = [], in_queue = replicate n False, time = 0,
    completed = 0, gantt = [], idx_next_arrival = 0\<rparr>"
  define sP where "sP = push_initial 0 s0"
  define s1 where "s1 = skip_initial sP"
  define m where "m = idx_next_arrival s1"
  have init: "rr_init ps =
      (if q s1 = [] \<and> idx_next_arrival s1 < n
       then admit_eq (s1\<lparr>gantt := gantt s1 @
              [GanttEntry (-1) (time s1) (arrival (procs s1 ! idx_next_arrival s1))],
            time := arrival (procs s1 ! idx_next_arrival s1)\<rparr>)
       else s1)"
    unfolding rr_init_def s1_def sP_def s0_def n_def ps'_def Let_def by (rule refl)
  have ok': "\<forall>p\<in>set ps'. pid p \<noteq> -1 \<and> 0 \<le> arrival p \<and> 0 < burst p \<and>
      burst p \<le> 2147483647 \<and> remaining p = burst p"
    using ok by (simp add: ps'_def rr_sort_props)
  have srt: "sorted (map arrival ps')"
    by (simp add: ps'_def rr_sort_props)
  have nov': "no_overflow ps'" if x
    unfolding ps'_def rr_sort_def by (rule no_overflow_sort_key [OF nov [OF that]])
  have base: "sim_inv x ps' [] 0 0 0 []"
    by (rule sim_inv_start [OF srt ok' nov'])
  have f0: "procs s0 = ps'" "q s0 = []" "time s0 = 0" "completed s0 = 0" "gantt s0 = []"
    "idx_next_arrival s0 = 0"
    by (simp_all add: s0_def)
  from push_initial_spec [of 0 s0]
  obtain mq where fP: "procs sP = ps'" "time sP = 0" "gantt sP = []" "completed sP = 0"
    "idx_next_arrival sP = 0" "mq \<le> n" "q sP = [0..<mq]"
    "\<And>j. j < mq \<Longrightarrow> arrival (ps' ! j) = 0" "mq < n \<Longrightarrow> arrival (ps' ! mq) \<noteq> 0"
    unfolding sP_def [symmetric] f0 n_def by auto
  have f1: "procs s1 = ps'" "time s1 = 0" "gantt s1 = []" "completed s1 = 0"
    "q s1 = [0..<mq]" "m \<le> n"
    "\<And>j. j < m \<Longrightarrow> arrival (ps' ! j) = 0" "m < n \<Longrightarrow> arrival (ps' ! m) \<noteq> 0"
    using skip_initial_spec [of sP] unfolding s1_def [symmetric] fP m_def [symmetric] n_def
    by simp_all
  have mm: "mq = m"
    by (rule first_unique [of _ n _ "\<lambda>j. arrival (ps' ! j) = 0"]) (use fP f1 in auto)
  have "sim_inv x ps' ([] @ [0..<m]) m 0 0 []"
    by (rule sim_inv_admit [OF base]) (use f1 in \<open>simp_all add: n_def\<close>)
  then have a: "sim_inv x (procs s1) (q s1) (idx_next_arrival s1) (time s1) (completed s1) (gantt s1)"
    using f1 mm by (simp add: m_def)
  have st: "static_ok ps'" by (rule sim_inv_static [OF base])
  have b: "time s1 < arrival (procs s1 ! j)" if "m \<le> j" "j < length (procs s1)" for j
  proof -
    have j: "j < length ps'" using that f1 by simp
    then have "m < n" using that by (simp add: n_def)
    then have "arrival (ps' ! m) \<noteq> 0" by (rule f1(8))
    moreover have "0 \<le> arrival (ps' ! m)"
      using ok' \<open>m < n\<close> by (simp add: n_def)
    moreover have "arrival (ps' ! m) \<le> arrival (ps' ! j)"
      by (rule static_ok_mono [OF st that(1) j])
    ultimately show ?thesis using f1 by simp
  qed
  have inv1: "rr_inv x s1"
    using a b by (simp add: rr_inv_def m_def)
  show ?thesis
  proof (cases "q s1 = [] \<and> idx_next_arrival s1 < n")
    case False
    then have eq: "rr_init ps = s1" unfolding init by (simp only: if_False)
    have "q s1 \<noteq> []" if "ps \<noteq> []"
    proof (cases "q s1 = []")
      case True
      with False have "n \<le> m" by (simp add: m_def)
      moreover have "0 < n" using that by (simp add: n_def ps'_def rr_sort_props)
      ultimately show ?thesis using f1(5,6) mm by simp
    qed
    then show ?thesis using inv1 f1 eq by (simp add: ps'_def)
  next
    case True
    then have emp: "q s1 = []" and lt: "idx_next_arrival s1 < length (procs s1)"
      using f1 by (simp_all add: n_def)
    have "time s1 < arrival (procs s1 ! idx_next_arrival s1)"
      using b [of m] lt by (simp add: m_def)
    then have body: "rr_body 1 s1 = Continue (rr_init ps)"
      using True emp lt by (simp add: rr_body_def Let_def init)
    with rr_body_idle [OF inv1 emp lt, of 1]
    have r: "rr_inv x (rr_init ps)" "procs (rr_init ps) = ps'"
      "idx_next_arrival s1 < idx_next_arrival (rr_init ps)"
      using f1 by auto
    have "queue_ok ps' (q (rr_init ps)) (idx_next_arrival (rr_init ps))"
      using r(1,2) by (simp add: rr_inv_def sim_inv_def)
    moreover have "0 < remaining (ps' ! 0)"
      using ok' lt f1(1) by (metis length_greater_0_conv list.size(3) not_less_zero nth_mem)
    ultimately have "0 \<in> set (q (rr_init ps))"
      using r(3) by (simp add: queue_ok_mem)
    then have "q (rr_init ps) \<noteq> []" by auto
    with r show ?thesis by (simp add: ps'_def)
  qed
qed

subsection \<open>The body of the priority loop\<close>

lemma pq_top_mem: "Q \<noteq> [] \<Longrightarrow> pq_top ps Q \<in> set Q"
proof -
  have "foldl (\<lambda>best y. if cmp ps best y then y else best) x xs \<in> set (x # xs)" for x xs
    by (induction xs arbitrary: x) (simp, fastforce)
  then show "Q \<noteq> [] \<Longrightarrow> pq_top ps Q \<in> set Q"
    by (cases Q) simp_all
qed

lemma unit_exec_idle: "unit_exec g \<Longrightarrow> unit_exec (g @ [GanttEntry (-1) t t'])"
  by (simp add: unit_exec_def)

lemma unit_exec_run: "unit_exec g \<Longrightarrow> unit_exec (g @ [GanttEntry i t (t + 1)])"
  by (simp add: unit_exec_def)

lemma pps_admit_inv:
  assumes inv: "pps_inv x s"
  shows "sim_inv x (pprocs s) (pq (admit s)) (idx (admit s)) (ptime s) (pcompleted s) (pgantt s)"
    and "pprocs (admit s) = pprocs s" "ptime (admit s) = ptime s"
    and "pcompleted (admit s) = pcompleted s" "pgantt (admit s) = pgantt s"
    and "idx s \<le> idx (admit s)" "idx (admit s) \<le> length (pprocs s)"
    and "pq (admit s) = pq s @ [idx s..<idx (admit s)]"
    and "idx (admit s) < length (pprocs s) \<Longrightarrow> ptime s < arrival (pprocs s ! idx (admit s))"
proof -
  have si: "sim_inv x (pprocs s) (pq s) (idx s) (ptime s) (pcompleted s) (pgantt s)"
    using inv by (simp add: pps_inv_def)
  have kl: "idx s \<le> length (pprocs s)"
    by (rule queue_ok_le [OF sim_inv_queue [OF si]])
  note sp = admit_spec [of s]
  show f: "pprocs (admit s) = pprocs s" "ptime (admit s) = ptime s"
    "pcompleted (admit s) = pcompleted s" "pgantt (admit s) = pgantt s"
    "idx s \<le> idx (admit s)" "idx (admit s) \<le> length (pprocs s)"
    "pq (admit s) = pq s @ [idx s..<idx (admit s)]"
    using sp kl by simp_all
  show "idx (admit s) < length (pprocs s) \<Longrightarrow> ptime s < arrival (pprocs s ! idx (admit s))"
    using sp by simp
  have "sim_inv x (pprocs s) (pq s @ [idx s..<idx (admit s)]) (idx (admit s)) (ptime s)
      (pcompleted s) (pgantt s)"
    by (rule sim_inv_admit [OF si]) (use sp kl in simp_all)
  then show "sim_inv x (pprocs s) (pq (admit s)) (idx (admit s)) (ptime s) (pcompleted s) (pgantt s)"
    using f(7) by simp
qed

lemma pps_body_break:
  assumes inv: "pps_inv x s" and emp: "pq (admit s) = []"
    and ge: "\<not> idx (admit s) < length (pprocs s)"
  shows "pps_body s = Break \<and> (\<forall>p\<in>set (pprocs s). remaining p = 0)"
proof -
  note a = pps_admit_inv [OF inv]
  have "pps_body s = Break"
    using emp ge a(2) by (simp add: pps_body_def Let_def)
  moreover have "\<forall>p\<in>set (pprocs s). remaining p = 0"
    by (rule all_done_by_queue [of _ _ "idx (admit s)" "ptime s" "pcompleted s" "pgantt s"])
      (use a(1) emp ge in simp_all)
  ultimately show ?thesis by simp
qed

lemma pps_body_idle:
  assumes inv: "pps_inv x s" and emp: "pq (admit s) = []"
    and lt: "idx (admit s) < length (pprocs s)"
  shows "\<exists>s'. pps_body s = Continue s' \<and> pps_inv x s' \<and> pprocs s' = pprocs s \<and>
           idx s' = idx s \<and> idx s < length (pprocs s) \<and>
           ptime s < arrival (pprocs s ! idx s) \<and> ptime s' = arrival (pprocs s ! idx s)"
proof -
  note a = pps_admit_inv [OF inv]
  define sa where "sa = admit s"
  define next_t where "next_t = arrival (pprocs sa ! idx sa)"
  define s' where "s' = sa\<lparr>pgantt := pgantt sa @ [GanttEntry (-1) (ptime sa) next_t],
    ptime := next_t\<rparr>"
  have same: "idx sa = idx s"
    using a(6,8) emp by (auto simp: sa_def)
  have tlt: "ptime s < next_t"
    using a(9) [OF lt] a(2) by (simp add: next_t_def sa_def)
  have body: "pps_body s = Continue s'"
    using emp lt tlt a(2,3)
    by (simp add: pps_body_def Let_def s'_def next_t_def sa_def)
  have f: "pprocs s' = pprocs s" "ptime s' = next_t" "pcompleted s' = pcompleted s"
    "pgantt s' = pgantt s @ [GanttEntry (-1) (ptime s) next_t]" "pq s' = pq sa" "idx s' = idx sa"
    using a(2-5) by (simp_all add: s'_def sa_def)
  have "sim_inv x (pprocs s) (pq sa) (idx sa) next_t (pcompleted s)
      (pgantt s @ [GanttEntry (-1) (ptime s) next_t])"
    by (rule sim_inv_idle [OF a(1) [folded sa_def] tlt, of "idx sa"])
      (use lt a(2) in \<open>simp_all add: next_t_def sa_def\<close>)
  moreover have "unit_exec (pgantt s @ [GanttEntry (-1) (ptime s) next_t])" if x
    by (rule unit_exec_idle) (use inv that in \<open>simp add: pps_inv_def\<close>)
  ultimately have "pps_inv x s'"
    by (simp add: pps_inv_def f)
  then show ?thesis
    using body f same tlt lt a(2) by (simp add: next_t_def sa_def)
qed

lemma pps_body_exec:
  assumes inv: "pps_inv x s" and ne: "pq (admit s) \<noteq> []"
  shows "\<exists>s'. pps_body s = Continue s' \<and> pps_inv x s' \<and>
           work_left (pprocs s') = work_left (pprocs s) - 1 \<and>
           idx s' \<le> length (pprocs s') \<and>
           map desc (pprocs s') = map desc (pprocs s)"
proof -
  note a = pps_admit_inv [OF inv]
  define sa where "sa = admit s"
  define ps where "ps = pprocs sa"
  define Q where "Q = pq sa"
  define k where "k = idx sa"
  define t where "t = ptime sa"
  define i where "i = pq_top ps Q"
  define p1 where "p1 = (if start_time (ps ! i) = -1 then (ps ! i)\<lparr>start_time := t\<rparr> else ps ! i)"
  define p2 where "p2 = p1\<lparr>remaining := wrap32 (remaining p1 - 1)\<rparr>"
  define t' where "t' = wrap32 (t + 1)"
  define g' where "g' = pgantt sa @ [GanttEntry (pid p1) t t']"
  define sA where "sA = sa\<lparr>pq := remove1 i Q, pprocs := ps[i := p2], pgantt := g',
      ptime := t'\<rparr>"
  define s1 where "s1 = admit sA"
  define k' where "k' = idx s1"
  define p3 where "p3 = p2\<lparr>completion_time := ptime s1,
      turnaround_time := wrap32 (ptime s1 - arrival p2),
      waiting_time := wrap32 (wrap32 (ptime s1 - arrival p2) - burst p2)\<rparr>"
  define sT where "sT = s1\<lparr>pq := pq s1 @ [i]\<rparr>"
  define sF where "sF = s1\<lparr>pprocs := (pprocs s1)[i := p3], pcompleted := Suc (pcompleted s1)\<rparr>"
  define s' where "s' = (if 0 < remaining p2 then sT else sF)"
  define rest where "rest = remove1 i Q"
  have "pps_body s = (if 0 < remaining p2 then Continue sT else Continue sF)"
    unfolding pps_body_def sT_def sF_def p3_def s1_def sA_def g'_def t'_def p2_def p1_def i_def
      t_def k_def Q_def ps_def Let_def sa_def
    using ne by (simp only: if_False)
  then have body: "pps_body s = Continue s'"
    by (simp add: s'_def)
  have fA: "pprocs sA = ps[i := p2]" "ptime sA = t'" "pcompleted sA = pcompleted s"
    "pq sA = rest" "pgantt sA = g'" "idx sA = k"
    using a(4) by (simp_all add: sA_def k_def rest_def sa_def)
  have sp: "pprocs s1 = ps[i := p2]" "ptime s1 = t'" "pcompleted s1 = pcompleted s"
    "pgantt s1 = g'" "k \<le> k'" "pq s1 = rest @ [k..<k']"
    "\<And>j. k \<le> j \<Longrightarrow> j < k' \<Longrightarrow> arrival (ps[i := p2] ! j) \<le> t'"
    "k \<le> length ps \<Longrightarrow> k' \<le> length ps"
    using admit_spec [of sA] unfolding s1_def [symmetric] fA k'_def [symmetric]
    by simp_all
  have si: "sim_inv x ps Q k t (pcompleted s) (pgantt s)"
    using a(1-3) by (simp add: ps_def Q_def k_def t_def sa_def)
  have gs: "pgantt sa = pgantt s" "pprocs s = ps"
    using a(2,5) by (simp_all add: sa_def ps_def)
  have qk: "queue_ok ps Q k" by (rule sim_inv_queue [OF si])
  have iq: "i \<in> set Q"
    unfolding i_def by (rule pq_top_mem) (use ne in \<open>simp add: Q_def sa_def\<close>)
  have ik: "i < k" and ri: "0 < remaining (ps ! i)"
    using queue_ok_mem [OF qk, of i] iq by simp_all
  have kl: "k \<le> length ps" by (rule queue_ok_le [OF qk])
  have il: "i < length ps" using ik kl by simp
  have k'l: "k' \<le> length ps" by (rule sp(8) [OF kl])
  have d1: "pid p1 = pid (ps ! i)" "arrival p1 = arrival (ps ! i)" "burst p1 = burst (ps ! i)"
    "priority p1 = priority (ps ! i)" "remaining p1 = remaining (ps ! i)"
    by (simp_all add: p1_def)
  have e: "(0::int) < 1" "1 \<le> remaining (ps ! i)"
    using ri by simp_all
  have "remaining (ps ! i) \<le> burst (ps ! i)"
    using sim_inv_work [OF si] il by (simp add: work_ok_def)
  moreover have "burst (ps ! i) \<le> 2147483647"
    using sim_inv_static [OF si] il by (simp add: static_ok_def)
  ultimately have we: "wrap32 (remaining (ps ! i) - 1) = remaining (ps ! i) - 1"
    using e by (intro wrap32_range) simp_all
  have tx: "t' = t + 1" if x
    using sim_inv_clock [of ps Q k t "pcompleted s" "pgantt s" i 1] si il e that
    by (simp add: t'_def)
  have d2: "pid p2 = pid (ps ! i)" "arrival p2 = arrival (ps ! i)" "burst p2 = burst (ps ! i)"
    "priority p2 = priority (ps ! i)" "remaining p2 = remaining (ps ! i) - 1"
    by (simp_all add: p2_def d1 we)
  have d3: "pid p3 = pid (ps ! i)" "arrival p3 = arrival (ps ! i)" "burst p3 = burst (ps ! i)"
    "priority p3 = priority (ps ! i)" "remaining p3 = remaining (ps ! i) - 1"
    "completion_time p3 = t'" "turnaround_time p3 = wrap32 (t' - arrival p3)"
    "waiting_time p3 = wrap32 (wrap32 (t' - arrival p3) - burst p3)"
    by (simp_all add: p3_def d2 sp(2))
  have g': "g' = pgantt s @ [GanttEntry (pid p2) t t']"
    "g' = pgantt s @ [GanttEntry (pid p3) t t']"
    by (simp_all add: g'_def d1 d2 d3 gs)
  have ue: "unit_exec g'" if x
    unfolding g'(1) tx [OF that]
    by (rule unit_exec_run) (use inv that in \<open>simp add: pps_inv_def\<close>)
  have dq: "distinct Q" by (rule queue_ok_distinct [OF qk])
  have itl: "i \<notin> set rest" "distinct rest"
    using dq by (simp_all add: rest_def)
  have mem_tl: "j \<in> set rest \<longleftrightarrow> j \<in> set Q \<and> j \<noteq> i" for j
    using dq by (auto simp: rest_def)
  have lt_tl: "j < k" if "j \<in> set rest" for j
    using queue_ok_mem [OF qk, of j] that mem_tl by simp
  have arr: "arrival (ps[i := p] ! j) = arrival (ps ! j)" if "arrival p = arrival (ps ! i)" for p j
    using that il by (cases "j = i") simp_all
  show ?thesis
  proof (cases "0 < remaining p2")
    case True
    have s': "pprocs s' = ps[i := p2]" "ptime s' = t'" "pcompleted s' = pcompleted s"
      "pgantt s' = g'" "pq s' = rest @ [k..<k'] @ [i]" "idx s' = k'"
      using True sp by (simp_all add: s'_def sT_def k'_def)
    have "sim_inv x (ps[i := p2]) Q k t' (pcompleted s) g'"
      unfolding g'(1)
    proof (rule sim_inv_run [OF si iq e d2(1,2,3,5) t'_def])
      show "distinct Q" by (rule dq)
      show "j \<in> set Q \<longleftrightarrow> j \<in> set Q \<and> (j = i \<longrightarrow> 0 < remaining p2)" for j
        using True by simp
      show "pcompleted s = (if remaining p2 = 0 then Suc (pcompleted s) else pcompleted s)"
        using True by simp
      show "completion_time p2 = t' \<and> turnaround_time p2 = wrap32 (t' - arrival p2) \<and>
          waiting_time p2 = wrap32 (wrap32 (t' - arrival p2) - burst p2)" if "remaining p2 = 0"
        using that True by simp
    qed
    then have "sim_inv x (ps[i := p2]) (Q @ [k..<k']) k' t' (pcompleted s) g'"
      by (rule sim_inv_admit) (use sp k'l in simp_all)
    then have a': "sim_inv x (ps[i := p2]) (rest @ [k..<k'] @ [i]) k' t' (pcompleted s) g'"
    proof (rule sim_inv_reorder)
      show "distinct (rest @ [k..<k'] @ [i])"
        using itl ik lt_tl by fastforce
      show "set (rest @ [k..<k'] @ [i]) = set (Q @ [k..<k'])"
        using mem_tl iq by auto
    qed
    have inv': "pps_inv x s'"
      using a' ue by (simp add: pps_inv_def s')
    have "work_left (ps[i := p2]) = work_left ps - remaining (ps ! i) + remaining p2"
      unfolding work_left_def by (rule sum_list_map_update [OF il])
    then have dec: "work_left (pprocs s') = work_left (pprocs s) - 1"
      using d2 by (simp add: s' gs)
    have "map desc (ps[i := p2]) = map desc ps"
      by (rule map_desc_update) (simp_all add: d2)
    then show ?thesis
      using body inv' dec k'l by (simp add: s' gs)
  next
    case False
    have z: "remaining p3 = 0" using False e d2 d3 by simp
    have s': "pprocs s' = ps[i := p3]" "ptime s' = t'" "pcompleted s' = Suc (pcompleted s)"
      "pgantt s' = g'" "pq s' = rest @ [k..<k']" "idx s' = k'"
      using False sp by (simp_all add: s'_def sF_def k'_def)
    have "sim_inv x (ps[i := p3]) rest k t' (Suc (pcompleted s)) g'"
      unfolding g'(2)
    proof (rule sim_inv_run [OF si iq e d3(1,2,3,5) t'_def])
      show "completion_time p3 = t' \<and> turnaround_time p3 = wrap32 (t' - arrival p3) \<and>
          waiting_time p3 = wrap32 (wrap32 (t' - arrival p3) - burst p3)"
        using d3 by simp
      show "distinct rest" by (rule itl)
      show "j \<in> set rest \<longleftrightarrow> j \<in> set Q \<and> (j = i \<longrightarrow> 0 < remaining p3)" for j
        using mem_tl [of j] z by auto
      show "Suc (pcompleted s) = (if remaining p3 = 0 then Suc (pcompleted s) else pcompleted s)"
        using z by simp
    qed
    then have a': "sim_inv x (ps[i := p3]) (rest @ [k..<k']) k' t' (Suc (pcompleted s)) g'"
    proof (rule sim_inv_admit)
      show "k \<le> k'" "k' \<le> length (ps[i := p3])" using sp(5) k'l by simp_all
      fix j assume "k \<le> j" "j < k'"
      then show "arrival (ps[i := p3] ! j) \<le> t'"
        using sp(7) [of j] arr [of p3 j] arr [of p2 j] d2 d3 by simp
    qed
    have inv': "pps_inv x s'"
      using a' ue by (simp add: pps_inv_def s')
    have "work_left (ps[i := p3]) = work_left ps - remaining (ps ! i) + remaining p3"
      unfolding work_left_def by (rule sum_list_map_update [OF il])
    then have dec: "work_left (pprocs s') = work_left (pprocs s) - 1"
      using d3 by (simp add: s' gs)
    have "map desc (ps[i := p3]) = map desc ps"
      by (rule map_desc_update) (simp_all add: d3)
    then show ?thesis
      using body inv' dec k'l by (simp add: s' gs)
  qed
qed

lemma pps_loop_total:
  assumes "pps_inv x s"
  shows "\<exists>s'. pps_loop s = Some s' \<and> pps_inv x s' \<and>
           (\<forall>p\<in>set (pprocs s'). remaining p = 0) \<and> map desc (pprocs s') = map desc (pprocs s)"
  using assms
proof (induction "2 * nat (work_left (pprocs s)) +
    (if idx s < length (pprocs s) \<and> ptime s < arrival (pprocs s ! idx s) then 1 else 0 :: nat)"
    arbitrary: s rule: less_induct)
  case less
  note inv = \<open>pps_inv x s\<close>
  have si: "sim_inv x (pprocs s) (pq s) (idx s) (ptime s) (pcompleted s) (pgantt s)"
    using inv by (simp add: pps_inv_def)
  show ?case
  proof (cases "pcompleted s < length (pprocs s)")
    case False
    then have "pps_loop s = Some s"
      by (subst pps_loop.simps) simp
    moreover have "\<forall>p\<in>set (pprocs s). remaining p = 0"
      by (rule all_done_by_count [OF si]) (use False in simp)
    ultimately show ?thesis using inv by simp
  next
    case run: True
    show ?thesis
    proof (cases "pq (admit s) = []")
      case empty: True
      show ?thesis
      proof (cases "idx (admit s) < length (pprocs s)")
        case True
        from pps_body_idle [OF inv empty True]
        obtain s1 where s1: "pps_body s = Continue s1" "pps_inv x s1" "pprocs s1 = pprocs s"
          "idx s1 = idx s" "idx s < length (pprocs s)" "ptime s < arrival (pprocs s ! idx s)"
          "ptime s1 = arrival (pprocs s ! idx s)"
          by blast
        have "2 * nat (work_left (pprocs s1)) +
            (if idx s1 < length (pprocs s1) \<and> ptime s1 < arrival (pprocs s1 ! idx s1)
             then 1 else 0 :: nat)
          < 2 * nat (work_left (pprocs s)) +
            (if idx s < length (pprocs s) \<and> ptime s < arrival (pprocs s ! idx s)
             then 1 else 0 :: nat)"
          using s1(3-7) by simp
        from less.hyps [OF this s1(2)]
        obtain s' where s': "pps_loop s1 = Some s'" "pps_inv x s'"
          "\<forall>p\<in>set (pprocs s'). remaining p = 0" "map desc (pprocs s') = map desc (pprocs s1)"
          by blast
        have "pps_loop s = pps_loop s1"
          using run s1(1) by (subst pps_loop.simps) simp
        then show ?thesis using s' s1(3) by simp
      next
        case False
        note br = pps_body_break [OF inv empty False]
        have "pps_loop s = Some s"
          using run br by (subst pps_loop.simps) simp
        then show ?thesis using inv br by simp
      qed
    next
      case False
      from pps_body_exec [OF inv False]
      obtain s1 where s1: "pps_body s = Continue s1" "pps_inv x s1"
        "work_left (pprocs s1) = work_left (pprocs s) - 1"
        "map desc (pprocs s1) = map desc (pprocs s)"
        by blast
      have si1: "sim_inv x (pprocs s1) (pq s1) (idx s1) (ptime s1) (pcompleted s1) (pgantt s1)"
        using s1(2) by (simp add: pps_inv_def)
      have "0 \<le> work_left (pprocs s1)"
        by (rule sum_list_nonneg_remaining [OF sim_inv_work [OF si1]])
      then have "nat (work_left (pprocs s)) = Suc (nat (work_left (pprocs s1)))"
        using s1(3) by linarith
      then have "2 * nat (work_left (pprocs s1)) +
            (if idx s1 < length (pprocs s1) \<and> ptime s1 < arrival (pprocs s1 ! idx s1)
             then 1 else 0 :: nat)
          < 2 * nat (work_left (pprocs s)) +
            (if idx s < length (pprocs s) \<and> ptime s < arrival (pprocs s ! idx s)
             then 1 else 0 :: nat)"
        by simp
      from less.hyps [OF this s1(2)]
      obtain s' where s': "pps_loop s1 = Some s'" "pps_inv x s'"
        "\<forall>p\<in>set (pprocs s'). remaining p = 0" "map desc (pprocs s') = map desc (pprocs s1)"
        by blast
      have "pps_loop s = pps_loop s1"
        using run s1(1) by (subst pps_loop.simps) simp
      then show ?thesis using s' s1(4) by simp
    qed
  qed
qed

lemma pps_sort_props:
  "sorted (map arrival (pps_sort ps))" "set (pps_sort ps) = set ps"
  "length (pps_sort ps) = length ps"
proof -
  have "sorted (map (\<lambda>p. (arrival p, priority p, pid p)) (pps_sort ps))"
    unfolding pps_sort_def by (rule sorted_sort_key)
  then show "sorted (map arrival (pps_sort ps))"
    by (rule sorted_fst_of_pairs)
qed (simp_all add: pps_sort_def)

lemma pps_init_inv:
  assumes ok: "\<forall>p\<in>set ps. pid p \<noteq> -1 \<and> 0 \<le> arrival p \<and> 0 < burst p \<and>
      burst p \<le> 2147483647 \<and> remaining p = burst p"
    and nov: "x \<Longrightarrow> no_overflow ps"
  shows "pps_inv x (pps_init ps) \<and> pprocs (pps_init ps) = pps_sort ps"
proof -
  define ps' where "ps' = pps_sort ps"
  have ok': "\<forall>p\<in>set ps'. pid p \<noteq> -1 \<and> 0 \<le> arrival p \<and> 0 < burst p \<and>
      burst p \<le> 2147483647 \<and> remaining p = burst p"
    using ok by (simp add: ps'_def pps_sort_props)
  have srt: "sorted (map arrival ps')"
    by (simp add: ps'_def pps_sort_props)
  have nov': "no_overflow ps'" if x
    unfolding ps'_def pps_sort_def by (rule no_overflow_sort_key [OF nov [OF that]])
  have base: "sim_inv x ps' [] 0 0 0 []"
    by (rule sim_inv_start [OF srt ok' nov'])
  show ?thesis
  proof (cases "0 < length ps' \<and> 0 < arrival (ps' ! 0)")
    case True
    then have init: "pps_init ps = \<lparr>pprocs = ps', pq = [], ptime = arrival (ps' ! 0),
        pcompleted = 0, pgantt = [GanttEntry (-1) 0 (arrival (ps' ! 0))], idx = 0\<rparr>"
      by (simp add: pps_init_def Let_def ps'_def)
    have "sim_inv x ps' [] 0 (arrival (ps' ! 0)) 0 ([] @ [GanttEntry (-1) 0 (arrival (ps' ! 0))])"
      by (rule sim_inv_idle [OF base, of _ 0]) (use True in simp_all)
    then show ?thesis
      by (simp add: init pps_inv_def unit_exec_def ps'_def)
  next
    case False
    then have init: "pps_init ps = \<lparr>pprocs = ps', pq = [], ptime = 0,
        pcompleted = 0, pgantt = [], idx = 0\<rparr>"
      by (auto simp: pps_init_def Let_def ps'_def)
    show ?thesis
      using base by (simp add: init pps_inv_def unit_exec_def ps'_def)
  qed
qed

section \<open>Whole runs\<close>

lemma fresh_remaining: "fresh p \<Longrightarrow> remaining p = burst p"
  unfolding fresh_def by (drule arg_cong [where f = remaining]) (simp add: new_Process_def)

lemma valid_procs_ok:
  assumes "valid_procs ps"
  shows "\<forall>p\<in>set ps. pid p \<noteq> -1 \<and> 0 \<le> arrival p \<and> 0 < burst p \<and>
      burst p \<le> 2147483647 \<and> remaining p = burst p"
proof
  fix p assume "p \<in> set ps"
  with assms have "0 < pid p" "0 \<le> arrival p" "0 < burst p" "fresh p" "int32 (burst p)"
    by (simp_all add: valid_procs_def)
  then show "pid p \<noteq> -1 \<and> 0 \<le> arrival p \<and> 0 < burst p \<and>
      burst p \<le> 2147483647 \<and> remaining p = burst p"
    using fresh_remaining [of p] by (simp add: int32_def)
qed

lemma gapless_chain: "chain t g \<Longrightarrow> gapless g"
  unfolding gapless_def using chain_nth [of t g] by simp

text \<open>What the invariant says once no work is left.\<close>

lemma sim_inv_final:
  assumes inv: "sim_inv x ps Q k t c g" and fin: "\<forall>p\<in>set ps. remaining p = 0"
  shows "chain 0 g" and "\<forall>p\<in>set ps. finalized p" and "ps \<noteq> [] \<Longrightarrow> g \<noteq> []"
    and "x \<Longrightarrow> \<forall>e\<in>set g. g_start e < g_end e"
    and "x \<Longrightarrow> cpu_busy g = sum_list (map burst ps)"
    and "x \<Longrightarrow> \<forall>p\<in>set ps. exact_times p"
    and "x \<Longrightarrow> exec_ticks g = cpu_busy g"
proof -
  have st: "static_ok ps" and d: "done_ok x ps c" and tl: "timeline_ok x ps g t"
    using inv by (simp_all add: sim_inv_def)
  show "chain 0 g"
    using tl by (simp add: timeline_ok_def)
  show "x \<Longrightarrow> \<forall>e\<in>set g. g_start e < g_end e"
    using tl by (simp add: timeline_ok_def)
  have z: "map remaining ps = map (\<lambda>p. 0) ps"
    using fin by simp
  then have "sum_list (map remaining ps) = 0"
    by (simp only: sum_list_0)
  then show "x \<Longrightarrow> cpu_busy g = sum_list (map burst ps)"
    using tl by (simp add: timeline_ok_def)
  show "x \<Longrightarrow> exec_ticks g = cpu_busy g"
    using tl by (simp add: timeline_ok_def)
  show "\<forall>p\<in>set ps. finalized p"
    using d fin by (simp add: done_ok_def)
  show "x \<Longrightarrow> \<forall>p\<in>set ps. exact_times p"
    using d fin by (simp add: done_ok_def)
  show "g \<noteq> []" if "ps \<noteq> []"
  proof
    assume "g = []"
    then have "map remaining ps = map burst ps"
      using tl by (simp add: timeline_ok_def)
    then have "sum_list (map burst ps) = sum_list (map remaining ps)"
      by (rule arg_cong [where f = sum_list, symmetric])
    also have "\<dots> = 0" unfolding z by (simp only: sum_list_0)
    finally have "sum_list (map burst ps) = 0" .
    moreover have "0 < sum_list (map burst ps)"
      by (rule sum_list_map_pos) (use st that in \<open>simp_all add: static_ok_def\<close>)
    ultimately show False by simp
  qed
qed

lemma round_robin_run:
  assumes v: "valid_procs ps" and qpos: "0 < quantum" and nov: "x \<Longrightarrow> no_overflow ps"
  shows "\<exists>s. rr_loop quantum (rr_init ps) = Some s \<and>
           round_robin ps quantum = Some (report (procs s) (gantt s)) \<and> rr_inv x s \<and>
           (\<forall>p\<in>set (procs s). remaining p = 0) \<and> map desc (procs s) = map desc (rr_sort ps)"
proof -
  note i = rr_init_inv [OF valid_procs_ok [OF v] nov]
  from rr_loop_total [of x "rr_init ps" quantum] i qpos
  obtain s where s: "rr_loop quantum (rr_init ps) = Some s" "rr_inv x s"
    "\<forall>p\<in>set (procs s). remaining p = 0" "map desc (procs s) = map desc (rr_sort ps)"
    by auto
  then show ?thesis by (auto simp: round_robin_def)
qed

lemma preemptive_priority_run:
  assumes v: "valid_procs ps" and nov: "x \<Longrightarrow> no_overflow ps"
  shows "\<exists>s. pps_loop (pps_init ps) = Some s \<and>
           preemptive_priority ps = Some (report (pprocs s) (pgantt s)) \<and> pps_inv x s \<and>
           (\<forall>p\<in>set (pprocs s). remaining p = 0) \<and> map desc (pprocs s) = map desc (pps_sort ps)"
proof -
  note i = pps_init_inv [OF valid_procs_ok [OF v] nov]
  from pps_loop_total [of x "pps_init ps"] i
  obtain s where s: "pps_loop (pps_init ps) = Some s" "pps_inv x s"
    "\<forall>p\<in>set (pprocs s). remaining p = 0" "map desc (pprocs s) = map desc (pps_sort ps)"
    by auto
  then show ?thesis by (auto simp: preemptive_priority_def)
qed

lemma desc_burst: "map desc xs = map desc ys \<Longrightarrow> map burst xs = map burst ys"
proof -
  assume "map desc xs = map desc ys"
  then have "map (fst \<circ> snd \<circ> snd) (map desc xs) = map (fst \<circ> snd \<circ> snd) (map desc ys)"
    by simp
  then show ?thesis by (simp add: desc_def comp_def)
qed

lemma desc_table:
  assumes "map desc xs = map desc (sort_key k ps)"
  shows "length xs = length ps" and "desc ` set xs = desc ` set ps"
proof -
  show "length xs = length ps"
    using assms by (metis length_map length_sort)
  have "set (map desc xs) = set (map desc (sort_key k ps))"
    using assms by simp
  then show "desc ` set xs = desc ` set ps"
    by simp
qed

lemma timeline_report [simp]: "timeline (report ps g) = g" "table (report ps g) = ps"
  by (simp_all add: report_def)

lemma good_resultI:
  assumes inv: "sim_inv x xs Q k t c g" and fin: "\<forall>p\<in>set xs. remaining p = 0"
    and d: "map desc xs = map desc (sort_key key ps)" and ne: "ps \<noteq> []"
  shows "good_result x ps (report xs g)"
proof -
  note f = sim_inv_final [OF inv fin]
  note t = desc_table [OF d]
  have "xs \<noteq> []" using t(1) ne by auto
  then have "g \<noteq> []" by (rule f(3))
  moreover have "cpu_busy g = sum_list (map burst ps)" if x
    using f(5) [OF that] desc_burst [OF d] by (simp add: sum_list_sort_key)
  ultimately show ?thesis
    using f(1,2,4,6,7) t by (simp add: good_result_def)
qed

lemma round_robin_good:
  assumes v: "valid_procs ps" and qpos: "0 < quantum" and nov: "x \<Longrightarrow> no_overflow ps"
  shows "\<exists>r. round_robin ps quantum = Some r \<and> good_result x ps r"
proof -
  from round_robin_run [OF v qpos nov]
  obtain s where s: "round_robin ps quantum = Some (report (procs s) (gantt s))" "rr_inv x s"
    "\<forall>p\<in>set (procs s). remaining p = 0" "map desc (procs s) = map desc (rr_sort ps)"
    by blast
  have "sim_inv x (procs s) (q s) (idx_next_arrival s) (time s) (completed s) (gantt s)"
    using s(2) by (simp add: rr_inv_def)
  then have "good_result x ps (report (procs s) (gantt s))"
    by (rule good_resultI [where key = "\<lambda>p. (arrival p, pid p)"])
      (use s v in \<open>simp_all add: rr_sort_def valid_procs_def\<close>)
  with s(1) show ?thesis by blast
qed

lemma preemptive_priority_good:
  assumes v: "valid_procs ps" and nov: "x \<Longrightarrow> no_overflow ps"
  shows "\<exists>r. preemptive_priority ps = Some r \<and> good_result x ps r \<and>
           (x \<longrightarrow> unit_exec (timeline r))"
proof -
  from preemptive_priority_run [OF v nov]
  obtain s where s: "preemptive_priority ps = Some (report (pprocs s) (pgantt s))" "pps_inv x s"
    "\<forall>p\<in>set (pprocs s). remaining p = 0" "map desc (pprocs s) = map desc (pps_sort ps)"
    by blast
  have "sim_inv x (pprocs s) (pq s) (idx s) (ptime s) (pcompleted s) (pgantt s)"
    using s(2) by (simp add: pps_inv_def)
  then have "good_result x ps (report (pprocs s) (pgantt s))"
    by (rule good_resultI [where key = "\<lambda>p. (arrival p, priority p, pid p)"])
      (use s v in \<open>simp_all add: pps_sort_def valid_procs_def\<close>)
  with s(1,2) show ?thesis by (auto simp: pps_inv_def)
qed
subsection \<open>States reached during a run\<close>

lemma rr_reach_inv:
  assumes v: "valid_procs ps" and qpos: "0 < quantum" and nov: "x \<Longrightarrow> no_overflow ps"
    and r: "rr_reach ps quantum s"
  shows "rr_inv x s"
  using r
proof (induction rule: rr_reach.induct)
  case rr_start
  show ?case using rr_init_inv [OF valid_procs_ok [OF v] nov] by simp
next
  case (rr_next s s')
  show ?case
  proof (cases "q s = []")
    case True
    with rr_next.hyps(3) have "idx_next_arrival s < length (procs s)"
      by (auto simp: rr_body_def split: if_splits)
    from rr_body_idle [OF rr_next.IH True this, of quantum] rr_next.hyps(3)
    show ?thesis by auto
  next
    case False
    from rr_body_exec [OF rr_next.IH False qpos] rr_next.hyps(3)
    show ?thesis by auto
  qed
qed

lemma pps_reach_inv:
  assumes v: "valid_procs ps" and nov: "x \<Longrightarrow> no_overflow ps" and r: "pps_reach ps s"
  shows "pps_inv x s"
  using r
proof (induction rule: pps_reach.induct)
  case pps_start
  show ?case using pps_init_inv [OF valid_procs_ok [OF v] nov] by simp
next
  case (pps_next s s')
  show ?case
  proof (cases "pq (admit s) = []")
    case True
    show ?thesis
    proof (cases "idx (admit s) < length (pprocs s)")
      case lt: True
      from pps_body_idle [OF pps_next.IH True lt] pps_next.hyps(3)
      show ?thesis by auto
    next
      case False
      from pps_body_break [OF pps_next.IH True False] pps_next.hyps(3)
      show ?thesis by simp
    qed
  next
    case False
    from pps_body_exec [OF pps_next.IH False] pps_next.hyps(3)
    show ?thesis by auto
  qed
qed

lemma rr_dispatch_decreases:
  assumes v: "valid_procs ps" and qpos: "0 < quantum" and r: "rr_reach ps quantum s"
    and ne: "q s \<noteq> []" and b: "rr_body quantum s = Continue s'"
  shows "0 \<le> work_left (procs s') \<and> work_left (procs s') < work_left (procs s)"
proof -
  have inv: "rr_inv False s"
    by (rule rr_reach_inv [OF v qpos _ r]) simp
  from rr_body_exec [OF inv ne qpos] b
  have s': "rr_inv False s'" "work_left (procs s') < work_left (procs s)"
    by auto
  have "sim_inv False (procs s') (q s') (idx_next_arrival s') (time s') (completed s') (gantt s')"
    using s'(1) by (simp add: rr_inv_def)
  then have "0 \<le> work_left (procs s')"
    by (rule sum_list_nonneg_remaining [OF sim_inv_work])
  with s'(2) show ?thesis by simp
qed

lemma pps_dispatch_decreases:
  assumes v: "valid_procs ps" and r: "pps_reach ps s"
    and ne: "pq (admit s) \<noteq> []" and b: "pps_body s = Continue s'"
  shows "0 \<le> work_left (pprocs s') \<and> work_left (pprocs s') < work_left (pprocs s)"
proof -
  have inv: "pps_inv False s"
    by (rule pps_reach_inv [OF v _ r]) simp
  from pps_body_exec [OF inv ne] b
  have s': "pps_inv False s'" "work_left (pprocs s') = work_left (pprocs s) - 1"
    by auto
  have "sim_inv False (pprocs s') (pq s') (idx s') (ptime s') (pcompleted s') (pgantt s')"
    using s'(1) by (simp add: pps_inv_def)
  then have "0 \<le> work_left (pprocs s')"
    by (rule sum_list_nonneg_remaining [OF sim_inv_work])
  with s'(2) show ?thesis by simp
qed




section \<open>The claims of the specification\<close>

lemma valid_sample: "valid_procs load_sample"
  by code_simp

lemma no_overflow_sample: "no_overflow load_sample"
  by code_simp

lemma good_result_timeline:
  assumes "good_result x ps r"
  shows "timeline r \<noteq> [] \<and> g_start (hd (timeline r)) = 0 \<and> gapless (timeline r)"
proof -
  have ne: "timeline r \<noteq> []" and c: "chain 0 (timeline r)"
    using assms by (simp_all add: good_result_def)
  have "g_start (timeline r ! 0) = 0" by (rule chain_hd [OF c ne])
  then have "g_start (hd (timeline r)) = 0" using ne by (simp add: hd_conv_nth)
  with ne gapless_chain [OF c] show ?thesis by simp
qed



text \<open>
  Claim C2. For every valid process set, and every positive quantum for Round Robin, each
  engine returns a timeline that is not empty, whose first interval starts at tick 0, and in
  which the end of each interval is the start of the next. This holds also of a run whose
  clock wraps around: the end of an interval and the start of the next are the same value
  of the clock.
\<close>

theorem timeline_contiguous:
  assumes "valid_procs ps" and "0 < quantum"
  shows "(\<exists>r. round_robin ps quantum = Some r \<and> timeline r \<noteq> [] \<and>
              g_start (hd (timeline r)) = 0 \<and> gapless (timeline r)) \<and>
         (\<exists>r. preemptive_priority ps = Some r \<and> timeline r \<noteq> [] \<and>
              g_start (hd (timeline r)) = 0 \<and> gapless (timeline r))"
proof -
  have "\<exists>r. round_robin ps quantum = Some r \<and> good_result False ps r"
    by (rule round_robin_good [OF assms]) simp
  moreover have "\<exists>r. preemptive_priority ps = Some r \<and> good_result False ps r"
    using preemptive_priority_good [OF assms(1), of False] by auto
  ultimately show ?thesis
    using good_result_timeline [of False ps] by blast
qed

theorem timeline_contiguous_witness:
  "valid_procs load_sample \<and> (0::int) < 2 \<and>
   (\<exists>r. round_robin load_sample 2 = Some r \<and> timeline r \<noteq> [] \<and>
        g_start (hd (timeline r)) = 0 \<and> gapless (timeline r)) \<and>
   (\<exists>r. preemptive_priority load_sample = Some r \<and> timeline r \<noteq> [] \<and>
        g_start (hd (timeline r)) = 0 \<and> gapless (timeline r))"
proof -
  have q: "(0::int) < 2" by simp
  show ?thesis
    using timeline_contiguous [OF valid_sample q] valid_sample by simp
qed

text \<open>
  Claim C3, with the bound it needs. For every valid process set in which the latest arrival
  plus the total burst is at most \<open>2\<^sup>3\<^sup>1 - 1\<close>, and every positive quantum for Round Robin,
  the durations of the execution intervals of the timeline add up to the sum of the bursts
  of the processes: both the exact sum \<open>exec_ticks\<close> of the differences \<open>end - start\<close> over
  the intervals whose pid is not \<open>-1\<close>, and the \<^verbatim>\<open>int\<close> \<^verbatim>\<open>cpu_busy\<close> that \<^verbatim>\<open>print_metrics\<close>
  accumulates over them.
\<close>

theorem busy_time_is_total_burst:
  assumes "valid_procs ps" and "no_overflow ps" and "0 < quantum"
  shows "(\<exists>r. round_robin ps quantum = Some r \<and>
              exec_ticks (timeline r) = sum_list (map burst ps) \<and>
              cpu_busy (timeline r) = sum_list (map burst ps)) \<and>
         (\<exists>r. preemptive_priority ps = Some r \<and>
              exec_ticks (timeline r) = sum_list (map burst ps) \<and>
              cpu_busy (timeline r) = sum_list (map burst ps))"
proof -
  from round_robin_good [OF assms(1,3), of True] assms(2)
  have "\<exists>r. round_robin ps quantum = Some r \<and>
      exec_ticks (timeline r) = sum_list (map burst ps) \<and>
      cpu_busy (timeline r) = sum_list (map burst ps)"
    by (auto simp: good_result_def)
  moreover from preemptive_priority_good [OF assms(1), of True] assms(2)
  have "\<exists>r. preemptive_priority ps = Some r \<and>
      exec_ticks (timeline r) = sum_list (map burst ps) \<and>
      cpu_busy (timeline r) = sum_list (map burst ps)"
    by (auto simp: good_result_def)
  ultimately show ?thesis by simp
qed

theorem busy_time_is_total_burst_witness:
  "valid_procs load_sample \<and> no_overflow load_sample \<and> (0::int) < 2 \<and>
   (\<exists>r. round_robin load_sample 2 = Some r \<and>
        exec_ticks (timeline r) = sum_list (map burst load_sample) \<and>
        cpu_busy (timeline r) = sum_list (map burst load_sample)) \<and>
   (\<exists>r. preemptive_priority load_sample = Some r \<and>
        exec_ticks (timeline r) = sum_list (map burst load_sample) \<and>
        cpu_busy (timeline r) = sum_list (map burst load_sample))"
proof -
  have q: "(0::int) < 2" by simp
  show ?thesis
    using busy_time_is_total_burst [OF valid_sample no_overflow_sample q]
      valid_sample no_overflow_sample
    by simp
qed

text \<open>
  Claim C3 as stated fails on a valid process set: two processes that arrive at tick 0 with
  burst \<open>2\<^sup>3\<^sup>0\<close> each, under Round Robin with quantum \<open>2\<^sup>3\<^sup>1 - 1\<close>. The clock wraps around
  during the second slice, which is recorded as \<open>[P2: 2\<^sup>3\<^sup>0 \<rightarrow> -2\<^sup>3\<^sup>1]\<close>; the durations of the
  two execution intervals add up to \<open>-2\<^sup>3\<^sup>1\<close>, exactly and in \<^verbatim>\<open>cpu_busy\<close>, while the bursts
  add up to \<open>2\<^sup>3\<^sup>1\<close>.
\<close>

theorem busy_time_wraps_around:
  "valid_procs [new_Process 1 0 1073741824 0, new_Process 2 0 1073741824 0] \<and>
   map_option timeline
     (round_robin [new_Process 1 0 1073741824 0, new_Process 2 0 1073741824 0] 2147483647) =
     Some [GanttEntry 1 0 1073741824, GanttEntry 2 1073741824 (-2147483648)] \<and>
   map_option (exec_ticks \<circ> timeline)
     (round_robin [new_Process 1 0 1073741824 0, new_Process 2 0 1073741824 0] 2147483647) =
     Some (-2147483648) \<and>
   map_option (cpu_busy \<circ> timeline)
     (round_robin [new_Process 1 0 1073741824 0, new_Process 2 0 1073741824 0] 2147483647) =
     Some (-2147483648) \<and>
   sum_list (map burst [new_Process 1 0 1073741824 0, new_Process 2 0 1073741824 0]) =
     2147483648"
  by code_simp

text \<open>
  Claim C4, as the code has it. Round Robin on the sample set with quantum 2 dispatches P1
  first, at tick 0 (the start times of P1 to P4 are 0, 2, 4 and 8), and its timeline begins
  \<open>[P1:0-2][P2:2-4][P3:4-6]\<close>: P3 arrives at tick 2, when the first slice of P1 ends, and
  is queued ahead of P1, so the third interval belongs to P3.
\<close>

theorem rr_sample_timeline:
  "map_option (take 3 \<circ> timeline) (round_robin load_sample 2) =
     Some [GanttEntry 1 0 2, GanttEntry 2 2 4, GanttEntry 3 4 6] \<and>
   map_option (map (\<lambda>p. (pid p, start_time p)) \<circ> table) (round_robin load_sample 2) =
     Some [(1, 0), (2, 2), (3, 4), (4, 8)]"
  by code_simp

text \<open>
  Claim C4 as stated fails: the first three intervals of that run are not
  \<open>[P1:0-2][P2:2-4][P1:4-5]\<close>.
\<close>

theorem rr_sample_third_interval:
  "map_option (take 3 \<circ> timeline) (round_robin load_sample 2) \<noteq>
     Some [GanttEntry 1 0 2, GanttEntry 2 2 4, GanttEntry 1 4 5]"
  by code_simp

text \<open>
  Claim C5 at the input on which the code departs from it. For an empty process list both
  engines pass an empty timeline and the makespan 0 to \<^verbatim>\<open>print_metrics\<close>, which divides by
  it unguarded: CPU utilization \<^verbatim>\<open>100.0 * 0 / 0.0\<close> and throughput \<^verbatim>\<open>0.0 / 0\<close> are both
  NaN, not 0.
\<close>

theorem metrics_of_empty_run:
  "map_option (m_total_time \<circ> metrics) (round_robin [] 2) = Some 0 \<and>
   map_option (cpu_util \<circ> metrics) (round_robin [] 2) = Some NaN \<and>
   map_option (throughput \<circ> metrics) (round_robin [] 2) = Some NaN \<and>
   map_option (cpu_util \<circ> metrics) (preemptive_priority []) = Some NaN \<and>
   map_option (throughput \<circ> metrics) (preemptive_priority []) = Some NaN"
  by code_simp

text \<open>
  For a makespan other than 0 the two metrics are the quotients
  \<open>100 \<times> busy / makespan\<close> and \<open>count / makespan\<close> (taken exactly; rounding to a
  double is not modelled).
\<close>

lemma metrics_formula:
  "total_time \<noteq> 0 \<Longrightarrow>
     cpu_util (print_metrics ps g total_time) =
       Fin (100 * of_int (cpu_busy g) / of_int total_time) \<and>
     throughput (print_metrics ps g total_time) =
       Fin (of_int (int (length ps)) / of_int total_time)"
  by (simp add: print_metrics_def ddiv_def Let_def)




text \<open>
  Claim C7, with the bound it needs. Preemptive priority scheduling of a valid process set
  in which the latest arrival plus the total burst is at most \<open>2\<^sup>3\<^sup>1 - 1\<close> returns a timeline
  in which every interval that runs a process (pid other than \<open>-1\<close>) lasts exactly one tick.
  On the sample set P1 runs in \<open>[0,1)\<close>; P2, which arrives at tick 1 with the more urgent
  priority 1, then takes the processor at tick 1 and keeps it until it completes at tick 4,
  when P1 resumes.
\<close>

theorem pps_unit_intervals:
  "(valid_procs ps \<and> no_overflow ps \<longrightarrow>
      (\<exists>r. preemptive_priority ps = Some r \<and>
           (\<forall>e\<in>set (timeline r). g_pid e \<noteq> -1 \<longrightarrow> g_end e = g_start e + 1))) \<and>
   map_option (take 5 \<circ> timeline) (preemptive_priority load_sample) =
     Some [GanttEntry 1 0 1, GanttEntry 2 1 2, GanttEntry 2 2 3, GanttEntry 2 3 4,
           GanttEntry 1 4 5]"
proof -
  have "\<exists>r. preemptive_priority ps = Some r \<and>
      (\<forall>e\<in>set (timeline r). g_pid e \<noteq> -1 \<longrightarrow> g_end e = g_start e + 1)"
    if "valid_procs ps" "no_overflow ps"
    using preemptive_priority_good [OF that(1), of True] that(2) by (auto simp: unit_exec_def)
  moreover have "map_option (take 5 \<circ> timeline) (preemptive_priority load_sample) =
      Some [GanttEntry 1 0 1, GanttEntry 2 1 2, GanttEntry 2 2 3, GanttEntry 2 3 4,
            GanttEntry 1 4 5]"
    by code_simp
  ultimately show ?thesis by blast
qed

theorem pps_unit_intervals_witness:
  "valid_procs load_sample \<and> no_overflow load_sample \<and>
   (\<exists>r. preemptive_priority load_sample = Some r \<and>
        (\<forall>e\<in>set (timeline r). g_pid e \<noteq> -1 \<longrightarrow> g_end e = g_start e + 1)) \<and>
   map_option (take 5 \<circ> timeline) (preemptive_priority load_sample) =
     Some [GanttEntry 1 0 1, GanttEntry 2 1 2, GanttEntry 2 2 3, GanttEntry 2 3 4,
           GanttEntry 1 4 5]"
  using pps_unit_intervals [of load_sample] valid_sample no_overflow_sample by simp

text \<open>
  Claim C7 as stated fails on a valid process set: for one process that arrives at tick
  \<open>2\<^sup>3\<^sup>1 - 1\<close> with burst 1, the clock wraps around during its only slice, and the execution
  interval is recorded as \<open>[P1: 2\<^sup>3\<^sup>1 - 1 \<rightarrow> -2\<^sup>3\<^sup>1]\<close>, whose end is not its start plus 1.
\<close>

theorem pps_interval_wraps_around:
  "valid_procs [new_Process 1 2147483647 1 0] \<and>
   map_option timeline (preemptive_priority [new_Process 1 2147483647 1 0]) =
     Some [GanttEntry (-1) 0 2147483647, GanttEntry 1 2147483647 (-2147483648)]"
  by code_simp

text \<open>
  Claim C8, with the bound it needs. For every valid process set in which the latest arrival
  plus the total burst is at most \<open>2\<^sup>3\<^sup>1 - 1\<close>, and every positive quantum for Round Robin,
  each engine returns a table that holds the input processes (as many, with the same
  identity, arrival, burst and priority), and every process in it satisfies: completion time
  at least arrival plus burst, waiting time at least 0, turnaround time at least the burst,
  turnaround time = completion time - arrival, and waiting time = turnaround time - burst.
\<close>

theorem finalized_times:
  assumes "valid_procs ps" and "no_overflow ps" and "0 < quantum"
  shows "(\<exists>r. round_robin ps quantum = Some r \<and>
              length (table r) = length ps \<and> desc ` set (table r) = desc ` set ps \<and>
              (\<forall>p\<in>set (table r).
                  arrival p + burst p \<le> completion_time p \<and> 0 \<le> waiting_time p \<and>
                  burst p \<le> turnaround_time p \<and>
                  turnaround_time p = completion_time p - arrival p \<and>
                  waiting_time p = turnaround_time p - burst p)) \<and>
         (\<exists>r. preemptive_priority ps = Some r \<and>
              length (table r) = length ps \<and> desc ` set (table r) = desc ` set ps \<and>
              (\<forall>p\<in>set (table r).
                  arrival p + burst p \<le> completion_time p \<and> 0 \<le> waiting_time p \<and>
                  burst p \<le> turnaround_time p \<and>
                  turnaround_time p = completion_time p - arrival p \<and>
                  waiting_time p = turnaround_time p - burst p))"
proof -
  have *: "length (table r) = length ps \<and> desc ` set (table r) = desc ` set ps \<and>
      (\<forall>p\<in>set (table r).
          arrival p + burst p \<le> completion_time p \<and> 0 \<le> waiting_time p \<and>
          burst p \<le> turnaround_time p \<and>
          turnaround_time p = completion_time p - arrival p \<and>
          waiting_time p = turnaround_time p - burst p)"
    if "good_result True ps r" for r
  proof -
    have "\<forall>p\<in>set (table r). exact_times p"
      using that by (simp add: good_result_def)
    then have "\<forall>p\<in>set (table r).
        arrival p + burst p \<le> completion_time p \<and> 0 \<le> waiting_time p \<and>
        burst p \<le> turnaround_time p \<and>
        turnaround_time p = completion_time p - arrival p \<and>
        waiting_time p = turnaround_time p - burst p"
      by (auto simp: exact_times_def)
    moreover have "length (table r) = length ps" "desc ` set (table r) = desc ` set ps"
      using that by (simp_all add: good_result_def)
    ultimately show ?thesis by blast
  qed
  have "\<exists>r. round_robin ps quantum = Some r \<and> good_result True ps r"
    by (rule round_robin_good [OF assms(1,3)]) (rule assms(2))
  moreover have "\<exists>r. preemptive_priority ps = Some r \<and> good_result True ps r"
    using preemptive_priority_good [OF assms(1), of True] assms(2) by auto
  ultimately show ?thesis using * by blast
qed

theorem finalized_times_witness:
  "valid_procs load_sample \<and> no_overflow load_sample \<and> (0::int) < 2 \<and>
   (\<exists>r. round_robin load_sample 2 = Some r \<and>
        length (table r) = length load_sample \<and>
        desc ` set (table r) = desc ` set load_sample \<and>
        (\<forall>p\<in>set (table r).
            arrival p + burst p \<le> completion_time p \<and> 0 \<le> waiting_time p \<and>
            burst p \<le> turnaround_time p \<and>
            turnaround_time p = completion_time p - arrival p \<and>
            waiting_time p = turnaround_time p - burst p)) \<and>
   (\<exists>r. preemptive_priority load_sample = Some r \<and>
        length (table r) = length load_sample \<and>
        desc ` set (table r) = desc ` set load_sample \<and>
        (\<forall>p\<in>set (table r).
            arrival p + burst p \<le> completion_time p \<and> 0 \<le> waiting_time p \<and>
            burst p \<le> turnaround_time p \<and>
            turnaround_time p = completion_time p - arrival p \<and>
            waiting_time p = turnaround_time p - burst p))"
proof -
  have q: "(0::int) < 2" by simp
  show ?thesis
    using finalized_times [OF valid_sample no_overflow_sample q] valid_sample no_overflow_sample
    by simp
qed

text \<open>
  Claim C8 as stated fails on a valid process set: one process that arrives at tick
  \<open>2\<^sup>3\<^sup>1 - 1\<close> with burst 1 completes, under either engine, when the clock has wrapped around
  to \<open>-2\<^sup>3\<^sup>1\<close>. Its completion time \<open>-2\<^sup>3\<^sup>1\<close> is less than arrival plus burst, and its
  turnaround time, computed as 1, is not completion time minus arrival.
\<close>

theorem completion_time_wraps_around:
  "valid_procs [new_Process 1 2147483647 1 0] \<and>
   map_option table (round_robin [new_Process 1 2147483647 1 0] 2) =
     Some [\<lparr>pid = 1, arrival = 2147483647, burst = 1, priority = 0, remaining = 0,
            start_time = 2147483647, completion_time = -2147483648, waiting_time = 0,
            turnaround_time = 1\<rparr>] \<and>
   map_option table (preemptive_priority [new_Process 1 2147483647 1 0]) =
     Some [\<lparr>pid = 1, arrival = 2147483647, burst = 1, priority = 0, remaining = 0,
            start_time = 2147483647, completion_time = -2147483648, waiting_time = 0,
            turnaround_time = 1\<rparr>]"
  by code_simp

text \<open>
  Claim C9. For every valid process set, and every positive quantum for Round Robin, the
  loop of each engine exits: the run returns, and every process of the input is in the
  returned table with no remaining work and its timing fields written (turnaround and
  waiting time as the program computes them from the completion time). Along the run the
  total remaining work is never negative, and every pass of a loop that dispatches a
  process (the ready queue is not empty) makes it strictly smaller. None of this depends on
  the clock staying below \<open>2\<^sup>3\<^sup>1\<close>: the remaining work of a process never wraps around.
\<close>

theorem runs_terminate:
  assumes "valid_procs ps" and "0 < quantum"
  shows "(\<exists>r. round_robin ps quantum = Some r \<and> length (table r) = length ps \<and>
              desc ` set (table r) = desc ` set ps \<and>
              (\<forall>p\<in>set (table r). finalized p)) \<and>
         (\<exists>r. preemptive_priority ps = Some r \<and> length (table r) = length ps \<and>
              desc ` set (table r) = desc ` set ps \<and>
              (\<forall>p\<in>set (table r). finalized p)) \<and>
         (rr_reach ps quantum s \<and> q s \<noteq> [] \<longrightarrow>
            (\<exists>s'. rr_body quantum s = Continue s' \<and> 0 \<le> work_left (procs s') \<and>
                  work_left (procs s') < work_left (procs s))) \<and>
         (pps_reach ps u \<and> pq (admit u) \<noteq> [] \<longrightarrow>
            (\<exists>u'. pps_body u = Continue u' \<and> 0 \<le> work_left (pprocs u') \<and>
                  work_left (pprocs u') < work_left (pprocs u)))"
proof -
  have "\<exists>r. round_robin ps quantum = Some r \<and> good_result False ps r"
    by (rule round_robin_good [OF assms]) simp
  then have a: "\<exists>r. round_robin ps quantum = Some r \<and> length (table r) = length ps \<and>
      desc ` set (table r) = desc ` set ps \<and> (\<forall>p\<in>set (table r). finalized p)"
    by (auto simp: good_result_def)
  from preemptive_priority_good [OF assms(1), of False]
  have b: "\<exists>r. preemptive_priority ps = Some r \<and> length (table r) = length ps \<and>
      desc ` set (table r) = desc ` set ps \<and> (\<forall>p\<in>set (table r). finalized p)"
    by (auto simp: good_result_def)
  have c: "\<exists>s'. rr_body quantum s = Continue s' \<and> 0 \<le> work_left (procs s') \<and>
      work_left (procs s') < work_left (procs s)"
    if "rr_reach ps quantum s" "q s \<noteq> []"
  proof -
    have "rr_inv False s"
      by (rule rr_reach_inv [OF assms _ that(1)]) simp
    from rr_body_exec [OF this that(2) assms(2)]
    obtain s' where "rr_body quantum s = Continue s'" by blast
    with rr_dispatch_decreases [OF assms that this] show ?thesis by blast
  qed
  have d: "\<exists>u'. pps_body u = Continue u' \<and> 0 \<le> work_left (pprocs u') \<and>
      work_left (pprocs u') < work_left (pprocs u)"
    if "pps_reach ps u" "pq (admit u) \<noteq> []"
  proof -
    have "pps_inv False u"
      by (rule pps_reach_inv [OF assms(1) _ that(1)]) simp
    from pps_body_exec [OF this that(2)]
    obtain u' where "pps_body u = Continue u'" by blast
    with pps_dispatch_decreases [OF assms(1) that this] show ?thesis by blast
  qed
  from a b c d show ?thesis by blast
qed

theorem runs_terminate_witness:
  "valid_procs load_sample \<and> (0::int) < 2 \<and>
   (\<exists>r. round_robin load_sample 2 = Some r \<and> length (table r) = length load_sample \<and>
        desc ` set (table r) = desc ` set load_sample \<and>
        (\<forall>p\<in>set (table r). finalized p)) \<and>
   (\<exists>r. preemptive_priority load_sample = Some r \<and> length (table r) = length load_sample \<and>
        desc ` set (table r) = desc ` set load_sample \<and>
        (\<forall>p\<in>set (table r). finalized p)) \<and>
   rr_reach load_sample 2 (rr_init load_sample) \<and> q (rr_init load_sample) \<noteq> [] \<and>
   (\<exists>s'. rr_body 2 (rr_init load_sample) = Continue s' \<and> 0 \<le> work_left (procs s') \<and>
         work_left (procs s') < work_left (procs (rr_init load_sample))) \<and>
   pps_reach load_sample (pps_init load_sample) \<and> pq (admit (pps_init load_sample)) \<noteq> [] \<and>
   (\<exists>u'. pps_body (pps_init load_sample) = Continue u' \<and> 0 \<le> work_left (pprocs u') \<and>
         work_left (pprocs u') < work_left (pprocs (pps_init load_sample)))"
proof -
  have q: "(0::int) < 2" by simp
  have r1: "rr_reach load_sample 2 (rr_init load_sample)" by (rule rr_start)
  have r2: "q (rr_init load_sample) \<noteq> []" by code_simp
  have p1: "pps_reach load_sample (pps_init load_sample)" by (rule pps_start)
  have p2: "pq (admit (pps_init load_sample)) \<noteq> []" by code_simp
  show ?thesis
    using runs_terminate [OF valid_sample q, of "rr_init load_sample" "pps_init load_sample"]
      valid_sample r1 r2 p1 p2
    by simp
qed

text \<open>
  Claim C10, with the bound it needs. For every valid process set in which the latest
  arrival plus the total burst is at most \<open>2\<^sup>3\<^sup>1 - 1\<close>, and every positive quantum for Round
  Robin, every interval of the timeline each engine returns, idle or not, ends strictly
  after it starts.
\<close>

theorem no_empty_interval:
  assumes "valid_procs ps" and "no_overflow ps" and "0 < quantum"
  shows "(\<exists>r. round_robin ps quantum = Some r \<and>
              (\<forall>e\<in>set (timeline r). g_start e < g_end e)) \<and>
         (\<exists>r. preemptive_priority ps = Some r \<and>
              (\<forall>e\<in>set (timeline r). g_start e < g_end e))"
proof -
  from round_robin_good [OF assms(1,3), of True] assms(2)
  have "\<exists>r. round_robin ps quantum = Some r \<and> (\<forall>e\<in>set (timeline r). g_start e < g_end e)"
    by (auto simp: good_result_def)
  moreover from preemptive_priority_good [OF assms(1), of True] assms(2)
  have "\<exists>r. preemptive_priority ps = Some r \<and> (\<forall>e\<in>set (timeline r). g_start e < g_end e)"
    by (auto simp: good_result_def)
  ultimately show ?thesis by simp
qed

theorem no_empty_interval_witness:
  "valid_procs load_sample \<and> no_overflow load_sample \<and> (0::int) < 2 \<and>
   (\<exists>r. round_robin load_sample 2 = Some r \<and>
        (\<forall>e\<in>set (timeline r). g_start e < g_end e)) \<and>
   (\<exists>r. preemptive_priority load_sample = Some r \<and>
        (\<forall>e\<in>set (timeline r). g_start e < g_end e))"
proof -
  have q: "(0::int) < 2" by simp
  show ?thesis
    using no_empty_interval [OF valid_sample no_overflow_sample q] valid_sample
      no_overflow_sample
    by simp
qed

text \<open>
  Claim C10 as stated fails on a valid process set: for one process that arrives at tick
  \<open>2\<^sup>3\<^sup>1 - 1\<close> with burst 1, Round Robin with quantum 2 records the execution interval
  \<open>[P1: 2\<^sup>3\<^sup>1 - 1 \<rightarrow> -2\<^sup>3\<^sup>1]\<close>, which ends before it starts.
\<close>

theorem rr_interval_ends_before_start:
  "valid_procs [new_Process 1 2147483647 1 0] \<and>
   map_option timeline (round_robin [new_Process 1 2147483647 1 0] 2) =
     Some [GanttEntry (-1) 0 2147483647, GanttEntry 1 2147483647 (-2147483648)]"
  by code_simp

end
